theory Spec2Isabelle
  imports Main "HOL-Library.AList" "HOL-Library.Char_ord" "HOL-Library.List_Lexorder"
    "HOL-Library.Extended_Nat"
begin

section \<open>Strings, numbers and arrays of the host language\<close>

text \<open>
  The program is TypeScript. A string is a sequence of code units; this development works
  with the code units below 256, so a document is a \<open>string\<close> (a \<open>char list\<close>).

  A number of the host is an IEEE 754 double. The numbers of this program come from
  \<open>parseInt\<close> on decimal digits and from \<open>i++\<close>, so they are the non-negative integers
  that a double can hold, and \<open>Infinity\<close>: the type \<open>number\<close> is \<open>enat\<close>, and every
  operation rounds as the host does (\<open>roundDouble\<close>: to the nearest double, a tie to the
  even significand, \<open>Infinity\<close> from \<open>2 ^ 1024 - 2 ^ 970\<close> on). Counts of tasks, which
  are lengths of arrays, are \<open>nat\<close>.

  An array is a list and a Set is the list of its elements in the order of insertion. The
  host bounds the length of an array by \<open>2 ^ 32 - 1\<close> and the size of a Set by \<open>2 ^ 24\<close>
  (the engine of node), and the operation that would exceed a bound raises RangeError.
  The bounds are modelled where the numbers written in a document can reach them: in
  \<open>extractParallelTasks\<close>, where the length of \<open>tasks\<close> and the size of
  \<open>processedRanges\<close> follow from the numbers of a range. Every other collection of the
  program holds at most one element for each phase, line or character of its input; it
  can reach a bound only on more than \<open>2 ^ 24\<close> phases or lines, and is modelled without
  one. An engine can also give up earlier for lack of memory; the model has the one error
  value \<open>RangeError\<close> for every way in which a collection cannot grow.
  A Map is an association list in the order of insertion, with \<open>AList.update\<close> for
  \<open>set\<close> and \<open>map_of\<close> for \<open>get\<close>.
\<close>

definition isDigit :: "char \<Rightarrow> bool" where
  \<comment> \<open>the class \<open>\d\<close>\<close>
  "isDigit c \<longleftrightarrow> c \<in> set ''0123456789''"

definition isSpace :: "char \<Rightarrow> bool" where
  \<comment> \<open>the class \<open>\s\<close> (and what \<open>trim\<close> removes): TAB, LF, VT, FF, CR, space, NBSP\<close>
  "isSpace c \<longleftrightarrow> c \<in> {CHR 0x09, CHR 0x0A, CHR 0x0B, CHR 0x0C, CHR 0x0D, CHR '' '', CHR 0xA0}"

definition isDot :: "char \<Rightarrow> bool" where
  \<comment> \<open>the class \<open>.\<close>: every code unit but the line terminators LF and CR\<close>
  "isDot c \<longleftrightarrow> c \<noteq> CHR 0x0A \<and> c \<noteq> CHR 0x0D"

definition startsWith :: "string \<Rightarrow> string \<Rightarrow> bool" where
  "startsWith s p \<longleftrightarrow> take (length p) s = p"

fun includesStr :: "string \<Rightarrow> string \<Rightarrow> bool" where
  "includesStr [] p = (p = [])"
| "includesStr (c # cs) p = (startsWith (c # cs) p \<or> includesStr cs p)"

definition trim :: "string \<Rightarrow> string" where
  "trim s = rev (dropWhile isSpace (rev (dropWhile isSpace s)))"

fun splitAcc :: "(char \<Rightarrow> bool) \<Rightarrow> string \<Rightarrow> string \<Rightarrow> string list" where
  "splitAcc sep cur [] = [cur]"
| "splitAcc sep cur (c # cs) =
     (if sep c then cur # splitAcc sep [] cs else splitAcc sep (cur @ [c]) cs)"

definition split :: "(char \<Rightarrow> bool) \<Rightarrow> string \<Rightarrow> string list" where
  \<comment> \<open>\<open>s.split(sep)\<close> for a separator that matches exactly one code unit\<close>
  "split sep s = splitAcc sep [] s"

definition digitValue :: "char \<Rightarrow> nat" where
  "digitValue c = of_char c - 48"

definition decimal :: "string \<Rightarrow> nat" where
  "decimal ds = foldl (\<lambda>n c. 10 * n + digitValue c) 0 ds"

type_synonym number = enat

function bitLength :: "nat \<Rightarrow> nat" where
  \<comment> \<open>the number of binary digits of \<open>n\<close>\<close>
  "bitLength n = (if n = 0 then 0 else Suc (bitLength (n div 2)))"
  by pat_completeness auto
termination
  by (relation "measure id") auto

declare bitLength.simps [simp del]

definition roundTo :: "nat \<Rightarrow> nat \<Rightarrow> nat" where
  \<comment> \<open>the multiple of \<open>u\<close> nearest to \<open>n\<close>; of two equally near, the even multiple\<close>
  "roundTo u n =
     (let q = n div u; r = n mod u
      in if 2 * r < u \<or> (2 * r = u \<and> even q) then q * u else (q + 1) * u)"

definition roundDouble :: "nat \<Rightarrow> number" where
  \<comment> \<open>the double nearest to the integer \<open>n\<close>: 53 significant binary digits are kept,
      and what rounds to \<open>2 ^ 1024\<close> is \<open>Infinity\<close>\<close>
  "roundDouble n =
     (let v = roundTo (2 ^ (bitLength n - 53)) n
      in if v < 2 ^ 1024 then enat v else \<infinity>)"

definition parseInt :: "string \<Rightarrow> number option" where
  \<comment> \<open>\<open>parseInt(s, 10)\<close> on the arguments this program passes (no sign occurs in them):
      leading white space is skipped, the longest run of digits is read and rounded to
      a double, and the result is NaN (\<open>None\<close>) when there is no digit\<close>
  "parseInt s =
     (let ds = takeWhile isDigit (dropWhile isSpace s)
      in if ds = [] then None else Some (roundDouble (decimal ds)))"

definition numInc :: "number \<Rightarrow> number" where
  \<comment> \<open>the value of \<open>i\<close> after \<open>i++\<close>: the double nearest to \<open>i + 1\<close>\<close>
  "numInc i = (case i of enat n \<Rightarrow> roundDouble (n + 1) | \<infinity> \<Rightarrow> \<infinity>)"

definition digitChar :: "nat \<Rightarrow> char" where
  "digitChar d = ''0123456789'' ! d"

function toString :: "nat \<Rightarrow> string" where
  \<comment> \<open>the decimal digits of a non-negative integer\<close>
  "toString n = (if n < 10 then [digitChar n] else toString (n div 10) @ [digitChar (n mod 10)])"
  by pat_completeness auto
termination
  by (relation "measure id") auto

declare toString.simps [simp del]

definition numToString :: "number \<Rightarrow> string" where
  \<comment> \<open>\<open>i.toString()\<close>. The host writes the shortest decimal that reads back as the same
      double, which is the decimal of the integer itself below \<open>2 ^ 54\<close>. The program
      calls it in the range loop only, and from \<open>2 ^ 54\<close> on that loop does not return
      (lemma \<open>rangeLoop_beyond\<close>), so no result depends on the digits written there\<close>
  "numToString i = (case i of enat n \<Rightarrow> toString n | \<infinity> \<Rightarrow> ''Infinity'')"

definition padStart3 :: "string \<Rightarrow> string" where
  \<comment> \<open>\<open>s.padStart(3, '0')\<close>: a string of three or more code units is unchanged\<close>
  "padStart3 s = replicate (3 - length s) CHR ''0'' @ s"

datatype error = RangeError

definition MAX_ARRAY_LENGTH :: nat where
  "MAX_ARRAY_LENGTH = 4294967295"

definition push :: "'a list \<Rightarrow> 'a \<Rightarrow> error + 'a list" where
  \<comment> \<open>\<open>xs.push(x)\<close>: an array has at most \<open>2 ^ 32 - 1\<close> elements, and the push that would
      exceed this raises RangeError (invalid array length)\<close>
  "push xs x = (if length xs < MAX_ARRAY_LENGTH then Inr (xs @ [x]) else Inl RangeError)"

definition MAX_SET_SIZE :: nat where
  "MAX_SET_SIZE = 16777216"

definition setAdd :: "'a list \<Rightarrow> 'a \<Rightarrow> error + 'a list" where
  \<comment> \<open>\<open>s.add(x)\<close>: a Set has at most \<open>2 ^ 24\<close> elements, and the insertion that would
      exceed this raises RangeError (Set maximum size exceeded)\<close>
  "setAdd s x =
     (if x \<in> set s then Inr s
      else if length s < MAX_SET_SIZE then Inr (s @ [x]) else Inl RangeError)"

fun newSetLoop :: "'a list \<Rightarrow> 'a list \<Rightarrow> error + 'a list" where
  "newSetLoop [] s = Inr s"
| "newSetLoop (x # xs) s =
     (case setAdd s x of Inl e \<Rightarrow> Inl e | Inr s' \<Rightarrow> newSetLoop xs s')"

definition newSet :: "'a list \<Rightarrow> error + 'a list" where
  \<comment> \<open>\<open>[...new Set(xs)]\<close>: the distinct elements in the order of their first occurrence\<close>
  "newSet xs = newSetLoop xs []"

fun findIndexFrom :: "('a \<Rightarrow> nat \<Rightarrow> bool) \<Rightarrow> nat \<Rightarrow> 'a list \<Rightarrow> nat option" where
  "findIndexFrom p i [] = None"
| "findIndexFrom p i (x # xs) = (if p x i then Some i else findIndexFrom p (Suc i) xs)"

definition findIndex :: "('a \<Rightarrow> nat \<Rightarrow> bool) \<Rightarrow> 'a list \<Rightarrow> nat option" where
  \<comment> \<open>\<open>xs.findIndex((x, i) => ...)\<close>, with \<open>None\<close> for \<open>-1\<close>\<close>
  "findIndex p xs = findIndexFrom p 0 xs"

section \<open>Regular expressions\<close>

text \<open>
  A pattern is a backtracking matcher in continuation style: it takes what follows it in
  the regular expression (the continuation, which receives the matched text where a group
  captures it) and the text left to match. A greedy quantifier tries the longest
  repetition first and gives characters back while the continuation fails; a lazy one
  tries the continuation first. This is the matching order of the host's engine, so each
  regular expression of the source is written below token for token.
\<close>

definition lit :: "string \<Rightarrow> (string \<Rightarrow> 'a option) \<Rightarrow> string \<Rightarrow> 'a option" where
  "lit p k s = (if startsWith s p then k (drop (length p) s) else None)"

definition chr :: "(char \<Rightarrow> bool) \<Rightarrow> (char \<Rightarrow> string \<Rightarrow> 'a option) \<Rightarrow> string \<Rightarrow> 'a option" where
  "chr p k s = (case s of [] \<Rightarrow> None | c # cs \<Rightarrow> if p c then k c cs else None)"

fun star :: "(char \<Rightarrow> bool) \<Rightarrow> (string \<Rightarrow> string \<Rightarrow> 'a option) \<Rightarrow> string \<Rightarrow> 'a option" where
  "star p k [] = k [] []"
| "star p k (c # cs) =
     (if p c
      then (case star p (\<lambda>m. k (c # m)) cs of Some x \<Rightarrow> Some x | None \<Rightarrow> k [] (c # cs))
      else k [] (c # cs))"

definition plus :: "(char \<Rightarrow> bool) \<Rightarrow> (string \<Rightarrow> string \<Rightarrow> 'a option) \<Rightarrow> string \<Rightarrow> 'a option" where
  "plus p k = chr p (\<lambda>c. star p (\<lambda>m. k (c # m)))"

fun lazyStar :: "(char \<Rightarrow> bool) \<Rightarrow> (string \<Rightarrow> string \<Rightarrow> 'a option) \<Rightarrow> string \<Rightarrow> 'a option" where
  "lazyStar p k [] = k [] []"
| "lazyStar p k (c # cs) =
     (case k [] (c # cs) of
        Some x \<Rightarrow> Some x
      | None \<Rightarrow> if p c then lazyStar p (\<lambda>m. k (c # m)) cs else None)"

definition lazyPlus :: "(char \<Rightarrow> bool) \<Rightarrow> (string \<Rightarrow> string \<Rightarrow> 'a option) \<Rightarrow> string \<Rightarrow> 'a option" where
  "lazyPlus p k = chr p (\<lambda>c. lazyStar p (\<lambda>m. k (c # m)))"

definition orElse :: "(string \<Rightarrow> 'a option) \<Rightarrow> (string \<Rightarrow> 'a option) \<Rightarrow> string \<Rightarrow> 'a option" where
  \<comment> \<open>an alternative, or an optional greedy group: the first branch, then the second\<close>
  "orElse a b s = (case a s of Some x \<Rightarrow> Some x | None \<Rightarrow> b s)"

definition eos :: "'a \<Rightarrow> string \<Rightarrow> 'a option" where
  \<comment> \<open>\<open>$\<close> at the end of a regular expression without the multiline flag\<close>
  "eos x s = (if s = [] then Some x else None)"

definition accept :: "'a \<Rightarrow> string \<Rightarrow> ('a \<times> string) option" where
  \<comment> \<open>the end of an unanchored regular expression: the captures and the text after the match\<close>
  "accept x s = Some (x, s)"

fun search :: "(string \<Rightarrow> 'a option) \<Rightarrow> string \<Rightarrow> 'a option" where
  \<comment> \<open>an unanchored match (\<open>test\<close>, \<open>match\<close> without the global flag): the leftmost start\<close>
  "search m [] = m []"
| "search m (c # cs) = (case m (c # cs) of Some x \<Rightarrow> Some x | None \<Rightarrow> search m cs)"

function matchAll :: "(string \<Rightarrow> ('a \<times> string) option) \<Rightarrow> string \<Rightarrow> 'a list" where
  \<comment> \<open>\<open>s.matchAll(re)\<close> for a global regular expression: the matches from left to right,
      each search starting where the last match ended (one further after an empty match)\<close>
  "matchAll m s =
     (case m s of
        Some (x, r) \<Rightarrow>
          if length r < length s then x # matchAll m r
          else (case s of [] \<Rightarrow> [x] | c # cs \<Rightarrow> x # matchAll m cs)
      | None \<Rightarrow> (case s of [] \<Rightarrow> [] | c # cs \<Rightarrow> matchAll m cs))"
  by pat_completeness auto
termination
  by (relation "measure (\<lambda>(m, s). length s)") auto

declare matchAll.simps [simp del]

definition toUpperAscii :: "char \<Rightarrow> char" where
  \<comment> \<open>the canonical form of a code unit under the flag \<open>i\<close>, for the code units that can
      match an ASCII pattern\<close>
  "toUpperAscii c =
     (case map_of (zip ''abcdefghijklmnopqrstuvwxyz'' ''ABCDEFGHIJKLMNOPQRSTUVWXYZ'') c of
        Some u \<Rightarrow> u
      | None \<Rightarrow> c)"

definition litCI :: "string \<Rightarrow> (string \<Rightarrow> 'a option) \<Rightarrow> string \<Rightarrow> 'a option" where
  \<comment> \<open>a literal under the flag \<open>i\<close>: the pattern's characters are ASCII, and a code unit
      from 128 on never folds to an ASCII one\<close>
  "litCI p k s =
     (if map toUpperAscii (take (length p) s) = map toUpperAscii p
      then k (drop (length p) s) else None)"

section \<open>The data model (types.ts)\<close>

record Task =
  id_task :: string
  completed :: bool
  title_task :: string

record PhaseDependency =
  shortName :: string
  dependsOn :: "number list"
  blocks :: "number list"
  canRunParallelWith :: "number list"
  parallelTasks :: "string list"
  description :: string

record Phase =
  number :: number
  title :: string
  priority :: "string option"
  tasks :: "Task list"
  completedCount :: nat
  totalCount :: nat
  isComplete :: bool
  dependency :: "PhaseDependency option"

record ParseResult =
  specFolder :: string
  specName :: string
  phases :: "Phase list"
  totalTasks :: nat
  completedTasks :: nat
  nextPhase :: "Phase option"
  nextTask :: "Task option"
  availablePhases :: "Phase list"

section \<open>The dependency section (dependency-parser.ts)\<close>

definition DEPENDENCIES_SECTION_START :: string where
  "DEPENDENCIES_SECTION_START = ''## Dependencies & Execution Order''"

definition PHASE_DEPENDENCIES_HEADER :: string where
  "PHASE_DEPENDENCIES_HEADER = ''### Phase Dependencies''"

definition PARALLEL_OPPORTUNITIES_HEADER :: string where
  "PARALLEL_OPPORTUNITIES_HEADER = ''### Parallel Opportunities''"

definition PHASE_DEP_LINE_REGEX :: "string \<Rightarrow> (string \<times> string \<times> string) option" where
  \<comment> \<open>\<^verbatim>\<open>/^-\s+\*\*Phase\s+(\d+)\s+\(([^)]+)\)\*\*:\s*(.+)$/\<close>\<close>
  "PHASE_DEP_LINE_REGEX =
     lit ''-'' (plus isSpace (\<lambda>_. lit ''**Phase'' (plus isSpace (\<lambda>_.
       plus isDigit (\<lambda>n. plus isSpace (\<lambda>_. lit ''('' (plus (\<lambda>c. c \<noteq> CHR '')'') (\<lambda>name.
         lit '')**:'' (star isSpace (\<lambda>_. plus isDot (\<lambda>d. eos (n, name, d))))))))))))"

definition DEPENDS_ON_REGEX :: "string \<Rightarrow> (string \<times> string) option" where
  \<comment> \<open>\<^verbatim>\<open>/[Dd]epends on Phase (\d+)/g\<close>\<close>
  "DEPENDS_ON_REGEX =
     chr (\<lambda>c. c \<in> set ''Dd'') (\<lambda>_. lit ''epends on Phase '' (plus isDigit (\<lambda>n. accept n)))"

definition DEPENDS_ON_ALL_REGEX :: "string \<Rightarrow> unit option" where
  \<comment> \<open>\<^verbatim>\<open>/[Dd]epends on all/i\<close>\<close>
  "DEPENDS_ON_ALL_REGEX =
     chr (\<lambda>c. toUpperAscii c = CHR ''D'') (\<lambda>_. litCI ''epends on all'' (\<lambda>_. Some ()))"

definition BLOCKS_ALL_REGEX :: "string \<Rightarrow> unit option" where
  \<comment> \<open>\<^verbatim>\<open>/BLOCKS all/i\<close>\<close>
  "BLOCKS_ALL_REGEX = litCI ''BLOCKS all'' (\<lambda>_. Some ())"

definition BLOCKS_PHASE_REGEX :: "string \<Rightarrow> (string \<times> string) option" where
  \<comment> \<open>\<^verbatim>\<open>/[Bb]locks Phase (\d+)/g\<close>\<close>
  "BLOCKS_PHASE_REGEX =
     chr (\<lambda>c. c \<in> set ''Bb'') (\<lambda>_. lit ''locks Phase '' (plus isDigit (\<lambda>n. accept n)))"

definition PARALLEL_TO_REGEX :: "string \<Rightarrow> string option" where
  \<comment> \<open>\<^verbatim>\<open>/parallel to Phase[s]?\s*([\d/]+)/\<close>\<close>
  "PARALLEL_TO_REGEX =
     lit ''parallel to Phase'' (orElse
       (lit ''s'' (star isSpace (\<lambda>_. plus (\<lambda>c. isDigit c \<or> c = CHR ''/'') (\<lambda>g _. Some g))))
       (star isSpace (\<lambda>_. plus (\<lambda>c. isDigit c \<or> c = CHR ''/'') (\<lambda>g _. Some g))))"

definition PARALLEL_OPP_LINE_REGEX :: "string \<Rightarrow> (string \<times> string) option" where
  \<comment> \<open>\<^verbatim>\<open>/^\*\*Phase\s+(\d+)\s+\([^)]+\)\*\*:\s*(.+)$/\<close>\<close>
  "PARALLEL_OPP_LINE_REGEX =
     lit ''**Phase'' (plus isSpace (\<lambda>_. plus isDigit (\<lambda>n. plus isSpace (\<lambda>_.
       lit ''('' (plus (\<lambda>c. c \<noteq> CHR '')'') (\<lambda>_. lit '')**:'' (star isSpace (\<lambda>_.
         plus isDot (\<lambda>d. eos (n, d))))))))))"

definition TASK_ID_REGEX :: "string \<Rightarrow> (string \<times> string) option" where
  \<comment> \<open>\<^verbatim>\<open>/T(\d+)/g\<close>\<close>
  "TASK_ID_REGEX = lit ''T'' (plus isDigit (\<lambda>n. accept n))"

definition TASK_RANGE_REGEX :: "string \<Rightarrow> ((string \<times> string) \<times> string) option" where
  \<comment> \<open>\<^verbatim>\<open>/T(\d+)-T(\d+)/g\<close>\<close>
  "TASK_RANGE_REGEX =
     lit ''T'' (plus isDigit (\<lambda>a. lit ''-T'' (plus isDigit (\<lambda>b. accept (a, b)))))"

definition number_of :: "string \<Rightarrow> number" where
  \<comment> \<open>\<open>parseInt(m, 10)\<close> where \<open>m\<close> is a capture of \<open>\d+\<close>, which is never NaN\<close>
  "number_of m = (case parseInt m of Some n \<Rightarrow> n | None \<Rightarrow> 0)"

function rangeLoop ::
  "number \<Rightarrow> number \<Rightarrow> string list \<Rightarrow> string list \<Rightarrow> error + (string list \<times> string list)" where
  \<comment> \<open>\<open>for (let i = start; i <= end; i++) { tasks.push(taskId); processedRanges.add(taskId) }\<close>.
      Where \<open>i++\<close> no longer changes \<open>i\<close> the loop goes on until an array or a Set is full\<close>
  "rangeLoop i end ts processedRanges =
     (if i \<le> end
      then (let taskId = CHR ''T'' # padStart3 (numToString i)
            in case push ts taskId of
                 Inl e \<Rightarrow> Inl e
               | Inr ts' \<Rightarrow>
                   (case setAdd processedRanges taskId of
                      Inl e \<Rightarrow> Inl e
                    | Inr processedRanges' \<Rightarrow> rangeLoop (numInc i) end ts' processedRanges'))
      else Inr (ts, processedRanges))"
  by pat_completeness auto
termination
  by (relation "measure (\<lambda>(i, e, ts, p). MAX_ARRAY_LENGTH - length ts)")
     (auto simp add: push_def split: if_splits)

declare rangeLoop.simps [simp del]

fun rangesLoop ::
  "(string \<times> string) list \<Rightarrow> string list \<Rightarrow> string list \<Rightarrow> error + (string list \<times> string list)" where
  \<comment> \<open>the loop over the matches of the range expression\<close>
  "rangesLoop [] ts processedRanges = Inr (ts, processedRanges)"
| "rangesLoop ((a, b) # ms) ts processedRanges =
     (case rangeLoop (number_of a) (number_of b) ts processedRanges of
        Inl e \<Rightarrow> Inl e
      | Inr (ts', processedRanges') \<Rightarrow> rangesLoop ms ts' processedRanges')"

fun idsLoop :: "string list \<Rightarrow> string list \<Rightarrow> string list \<Rightarrow> error + string list" where
  \<comment> \<open>the loop over the matches of the single task identifier\<close>
  "idsLoop [] processedRanges ts = Inr ts"
| "idsLoop (m # ms) processedRanges ts =
     (let taskId = CHR ''T'' # padStart3 m
      in if taskId \<notin> set processedRanges
         then (case push ts taskId of
                 Inl e \<Rightarrow> Inl e
               | Inr ts' \<Rightarrow> idsLoop ms processedRanges ts')
         else idsLoop ms processedRanges ts)"

definition extractParallelTasks :: "string \<Rightarrow> error + string list" where
  "extractParallelTasks d =
     (case rangesLoop (matchAll TASK_RANGE_REGEX d) [] [] of
        Inl e \<Rightarrow> Inl e
      | Inr (ts, processedRanges) \<Rightarrow>
          (case idsLoop (matchAll TASK_ID_REGEX d) processedRanges ts of
             Inl e \<Rightarrow> Inl e
           | Inr ts' \<Rightarrow>
               (case newSet ts' of
                  Inl e \<Rightarrow> Inl e
                | Inr s \<Rightarrow> Inr (sort s))))"

definition parsePhaseDependencyLine ::
  "string \<Rightarrow> number list \<Rightarrow> (number \<times> PhaseDependency) option" where
  "parsePhaseDependencyLine line allPhaseNumbers =
     (case PHASE_DEP_LINE_REGEX line of
        None \<Rightarrow> None
      | Some (m1, m2, m3) \<Rightarrow>
          (let phaseNumber = number_of m1;
               dependsOn' =
                 (if search DEPENDS_ON_ALL_REGEX m3 \<noteq> None
                  then filter (\<lambda>n. n < phaseNumber) allPhaseNumbers
                  else map number_of (matchAll DEPENDS_ON_REGEX m3));
               blocks' =
                 (if search BLOCKS_ALL_REGEX m3 \<noteq> None
                  then filter (\<lambda>n. n > phaseNumber) allPhaseNumbers
                  else map number_of (matchAll BLOCKS_PHASE_REGEX m3));
               canRunParallelWith' =
                 (case search PARALLEL_TO_REGEX m3 of
                    None \<Rightarrow> []
                  | Some g \<Rightarrow>
                      concat (map (\<lambda>p. case parseInt (trim p) of None \<Rightarrow> [] | Some n \<Rightarrow> [n])
                                  (split (\<lambda>c. c = CHR ''/'') g)))
           in Some (phaseNumber,
                    \<lparr>shortName = m2, dependsOn = dependsOn', blocks = blocks',
                     canRunParallelWith = canRunParallelWith', parallelTasks = [],
                     description = m3\<rparr>)))"

fun parseParallelOpportunities ::
  "string list \<Rightarrow> (number \<times> string list) list \<Rightarrow> error + (number \<times> string list) list" where
  \<comment> \<open>the loop over the lines, with the map built so far\<close>
  "parseParallelOpportunities [] result = Inr result"
| "parseParallelOpportunities (line # ls) result =
     (case PARALLEL_OPP_LINE_REGEX line of
        None \<Rightarrow> parseParallelOpportunities ls result
      | Some (m1, m2) \<Rightarrow>
          (case extractParallelTasks m2 of
             Inl e \<Rightarrow> Inl e
           | Inr ts \<Rightarrow>
               if length ts > 0
               then parseParallelOpportunities ls (AList.update (number_of m1) ts result)
               else parseParallelOpportunities ls result))"

fun collectPhaseNumbers :: "string list \<Rightarrow> number list" where
  "collectPhaseNumbers [] = []"
| "collectPhaseNumbers (line # ls) =
     (case PHASE_DEP_LINE_REGEX line of
        None \<Rightarrow> collectPhaseNumbers ls
      | Some (m1, m2, m3) \<Rightarrow> number_of m1 # collectPhaseNumbers ls)"

fun phaseDepsLoop ::
  "number list \<Rightarrow> string list \<Rightarrow> (number \<times> PhaseDependency) list \<Rightarrow> (number \<times> PhaseDependency) list" where
  \<comment> \<open>the loop over the lines after the Phase Dependencies header\<close>
  "phaseDepsLoop allPhaseNumbers [] result = result"
| "phaseDepsLoop allPhaseNumbers (line # ls) result =
     (if startsWith line ''###'' \<or> startsWith line ''## '' then result
      else if trim line = [] then phaseDepsLoop allPhaseNumbers ls result
      else (case parsePhaseDependencyLine line allPhaseNumbers of
              Some (phaseNumber, dep) \<Rightarrow>
                phaseDepsLoop allPhaseNumbers ls (AList.update phaseNumber dep result)
            | None \<Rightarrow> phaseDepsLoop allPhaseNumbers ls result))"

fun parallelLinesLoop :: "string list \<Rightarrow> string list" where
  \<comment> \<open>the loop that collects the lines after the Parallel Opportunities header\<close>
  "parallelLinesLoop [] = []"
| "parallelLinesLoop (line # ls) =
     (if startsWith line ''---'' \<or> startsWith line ''## '' then []
      else if trim line = [] then parallelLinesLoop ls
      else line # parallelLinesLoop ls)"

fun mergeParallel ::
  "(number \<times> string list) list \<Rightarrow> (number \<times> PhaseDependency) list \<Rightarrow> (number \<times> PhaseDependency) list" where
  "mergeParallel [] result = result"
| "mergeParallel ((phaseNum, ts) # ps) result =
     mergeParallel ps
       (case map_of result phaseNum of
          Some existing \<Rightarrow> AList.update phaseNum (existing\<lparr>parallelTasks := ts\<rparr>) result
        | None \<Rightarrow>
            AList.update phaseNum
              \<lparr>shortName = [], dependsOn = [], blocks = [], canRunParallelWith = [],
               parallelTasks = ts, description = []\<rparr> result)"

definition addBlock ::
  "number \<Rightarrow> number \<Rightarrow> (number \<times> PhaseDependency) list \<Rightarrow> (number \<times> PhaseDependency) list" where
  \<comment> \<open>the body of the inner loop: \<open>phaseNum\<close> is added to the blocks of \<open>dependsOnPhase\<close>\<close>
  "addBlock phaseNum dependsOnPhase result =
     (case map_of result dependsOnPhase of
        None \<Rightarrow> result
      | Some blocker \<Rightarrow>
          if phaseNum \<notin> set (blocks blocker)
          then AList.update dependsOnPhase (blocker\<lparr>blocks := blocks blocker @ [phaseNum]\<rparr>) result
          else result)"

definition reverseStep ::
  "number \<Rightarrow> (number \<times> PhaseDependency) list \<Rightarrow> (number \<times> PhaseDependency) list" where
  \<comment> \<open>one round of the outer loop, at the key \<open>phaseNum\<close>\<close>
  "reverseStep phaseNum result =
     (case map_of result phaseNum of
        None \<Rightarrow> result
      | Some dep \<Rightarrow> fold (addBlock phaseNum) (dependsOn dep) result)"

definition buildReverse :: "(number \<times> PhaseDependency) list \<Rightarrow> (number \<times> PhaseDependency) list" where
  \<comment> \<open>the loop over the entries of the map, in the order of insertion\<close>
  "buildReverse result = fold reverseStep (map fst result) result"

definition sortBlocks :: "(number \<times> PhaseDependency) list \<Rightarrow> (number \<times> PhaseDependency) list" where
  "sortBlocks result = map (\<lambda>(k, dep). (k, dep\<lparr>blocks := sort (blocks dep)\<rparr>)) result"

definition readSections :: "string list \<Rightarrow> nat \<Rightarrow> error + (number \<times> PhaseDependency) list" where
  \<comment> \<open>the map when the two subsections have been read, before the reverse relationships\<close>
  "readSections lines depSectionStart =
     (let phaseDepsStart =
            findIndex (\<lambda>l i. i > depSectionStart \<and> includesStr l PHASE_DEPENDENCIES_HEADER) lines;
          parallelOppStart =
            findIndex (\<lambda>l i. i > depSectionStart \<and> includesStr l PARALLEL_OPPORTUNITIES_HEADER) lines;
          allPhaseNumbers = collectPhaseNumbers lines;
          result =
            (case phaseDepsStart of
               None \<Rightarrow> []
             | Some s \<Rightarrow>
                 (let endIndex = (case parallelOppStart of Some p \<Rightarrow> p | None \<Rightarrow> length lines)
                  in phaseDepsLoop allPhaseNumbers (drop (s + 1) (take endIndex lines)) []))
      in case parallelOppStart of
           None \<Rightarrow> Inr result
         | Some p \<Rightarrow>
             (case parseParallelOpportunities (parallelLinesLoop (drop (p + 1) lines)) [] of
                Inl e \<Rightarrow> Inl e
              | Inr parallelTasks' \<Rightarrow> Inr (mergeParallel parallelTasks' result)))"

definition parseDependencies :: "string \<Rightarrow> error + (number \<times> PhaseDependency) list" where
  "parseDependencies content =
     (let lines = split (\<lambda>c. c = CHR 0x0A) content
      in case findIndex (\<lambda>l i. includesStr l DEPENDENCIES_SECTION_START) lines of
           None \<Rightarrow> Inr []
         | Some depSectionStart \<Rightarrow>
             (case readSections lines depSectionStart of
                Inl e \<Rightarrow> Inl e
              | Inr result \<Rightarrow> Inr (sortBlocks (buildReverse result))))"

definition calculateAvailablePhases_loop ::
  "number set \<Rightarrow> Phase list \<Rightarrow> number list \<Rightarrow> number list" where
  \<comment> \<open>the loop over the phases, with the array \<open>available\<close> built so far\<close>
  "calculateAvailablePhases_loop completedPhases ps available =
     fold (\<lambda>phase available.
             if isComplete phase then available
             else (case dependency phase of
                     None \<Rightarrow> available @ [number phase]
                   | Some dep \<Rightarrow>
                       if length (dependsOn dep) = 0 then available @ [number phase]
                       else if list_all (\<lambda>d. d \<in> completedPhases) (dependsOn dep)
                            then available @ [number phase]
                            else available))
          ps available"

definition calculateAvailablePhases :: "Phase list \<Rightarrow> number list" where
  "calculateAvailablePhases ps =
     (let completedPhases = set (map number (filter isComplete ps))
      in sort (calculateAvailablePhases_loop completedPhases ps []))"

section \<open>The spec name (git-utils.ts)\<close>

definition isSeparator :: "char \<Rightarrow> bool" where
  \<comment> \<open>\<^verbatim>\<open>/[/\\]/\<close>: a slash or a backslash\<close>
  "isSeparator c \<longleftrightarrow> c = CHR ''/'' \<or> c = CHR 0x5C"

definition getSpecName :: "string \<Rightarrow> string" where
  \<comment> \<open>\<open>parts[parts.length - 1] ?? 'unknown'\<close>: the index is out of range when there is no part\<close>
  "getSpecName folder =
     (let parts = split isSeparator folder
      in if parts = [] then ''unknown'' else last parts)"

section \<open>The tasks file (parser.ts)\<close>

definition PHASE_HEADER_REGEX :: "string \<Rightarrow> (string \<times> string \<times> string option) option" where
  \<comment> \<open>\<^verbatim>\<open>/^##\s+Phase\s+(\d+):\s*(.+?)(?:\s*\(Priority:\s*(P\d)\))?$/\<close>\<close>
  "PHASE_HEADER_REGEX =
     lit ''##'' (plus isSpace (\<lambda>_. lit ''Phase'' (plus isSpace (\<lambda>_. plus isDigit (\<lambda>n.
       lit '':'' (star isSpace (\<lambda>_. lazyPlus isDot (\<lambda>t. orElse
         (star isSpace (\<lambda>_. lit ''(Priority:'' (star isSpace (\<lambda>_. lit ''P'' (chr isDigit (\<lambda>d.
            lit '')'' (eos (n, t, Some [CHR ''P'', d]))))))))
         (eos (n, t, None))))))))))"

definition TASK_LINE_REGEX :: "string \<Rightarrow> (char \<times> string \<times> string) option" where
  \<comment> \<open>\<^verbatim>\<open>/^-\s+\[(X| )\]\s+(T\d+)\s+(.*)$/\<close>\<close>
  "TASK_LINE_REGEX =
     lit ''-'' (plus isSpace (\<lambda>_. lit ''['' (chr (\<lambda>c. c = CHR ''X'' \<or> c = CHR '' '') (\<lambda>x.
       lit '']'' (plus isSpace (\<lambda>_. lit ''T'' (plus isDigit (\<lambda>n. plus isSpace (\<lambda>_.
         star isDot (\<lambda>t. eos (x, CHR ''T'' # n, t)))))))))))"

definition parseTaskLine :: "char \<times> string \<times> string \<Rightarrow> Task" where
  "parseTaskLine m =
     (case m of (checkbox, i, t) \<Rightarrow>
        \<lparr>id_task = i, completed = (checkbox = CHR ''X''), title_task = trim t\<rparr>)"

definition finalizePhase :: "Phase \<Rightarrow> Phase" where
  "finalizePhase phase =
     (let completedCount' = length (filter completed (tasks phase))
      in phase\<lparr>completedCount := completedCount',
               totalCount := length (tasks phase),
               isComplete := (completedCount' = length (tasks phase) \<and> length (tasks phase) > 0)\<rparr>)"

fun linesLoop :: "string list \<Rightarrow> Phase list \<Rightarrow> Phase option \<Rightarrow> Phase list \<times> Phase option" where
  \<comment> \<open>the loop over the lines, with \<open>phases\<close> and \<open>currentPhase\<close>\<close>
  "linesLoop [] ps currentPhase = (ps, currentPhase)"
| "linesLoop (line # ls) ps currentPhase =
     (case PHASE_HEADER_REGEX line of
        Some (n, t, p) \<Rightarrow>
          linesLoop ls
            (case currentPhase of Some c \<Rightarrow> ps @ [finalizePhase c] | None \<Rightarrow> ps)
            (Some \<lparr>number = number_of n, title = trim t, priority = p, tasks = [],
                   completedCount = 0, totalCount = 0, isComplete = False, dependency = None\<rparr>)
      | None \<Rightarrow>
          (case (TASK_LINE_REGEX line, currentPhase) of
             (Some m, Some c) \<Rightarrow> linesLoop ls ps (Some (c\<lparr>tasks := tasks c @ [parseTaskLine m]\<rparr>))
           | _ \<Rightarrow> linesLoop ls ps currentPhase))"

definition attachDependencies :: "(number \<times> PhaseDependency) list \<Rightarrow> Phase list \<Rightarrow> Phase list" where
  "attachDependencies dependencies ps =
     map (\<lambda>phase. case map_of dependencies (number phase) of
                     Some dep \<Rightarrow> phase\<lparr>dependency := Some dep\<rparr>
                   | None \<Rightarrow> phase) ps"

definition parseTasksFile :: "string \<Rightarrow> string \<Rightarrow> error + ParseResult" where
  "parseTasksFile content folder =
     (let lines = split (\<lambda>c. c = CHR 0x0A) content;
          (ps0, currentPhase) = linesLoop lines [] None;
          ps1 = (case currentPhase of Some c \<Rightarrow> ps0 @ [finalizePhase c] | None \<Rightarrow> ps0)
      in case parseDependencies content of
           Inl e \<Rightarrow> Inl e
         | Inr dependencies \<Rightarrow>
             (let ps = attachDependencies dependencies ps1;
                  availablePhaseNumbers = calculateAvailablePhases ps
              in Inr \<lparr>specFolder = folder,
                      specName = getSpecName folder,
                      phases = ps,
                      totalTasks = foldl (\<lambda>sum p. sum + totalCount p) 0 ps,
                      completedTasks = foldl (\<lambda>sum p. sum + completedCount p) 0 ps,
                      nextPhase = find (\<lambda>p. \<not> isComplete p) ps,
                      nextTask = None, \<comment> \<open>the returned object has no such property\<close>
                      availablePhases =
                        filter (\<lambda>p. number p \<in> set availablePhaseNumbers \<and> \<not> isComplete p) ps\<rparr>))"

section \<open>Specification-side notions\<close>

definition available_spec :: "Phase list \<Rightarrow> Phase \<Rightarrow> bool" where
  \<comment> \<open>the specification's words: the phase is not complete, and every entry of its
      \<open>dependsOn\<close>, when it has a dependency record, is the number of a complete phase of the list\<close>
  "available_spec ps p \<longleftrightarrow>
     \<not> isComplete p \<and>
     (case dependency p of
        None \<Rightarrow> True
      | Some dep \<Rightarrow> \<forall>d\<in>set (dependsOn dep). \<exists>q\<in>set ps. isComplete q \<and> number q = d)"

definition availableNumbersOf :: "string \<Rightarrow> string \<Rightarrow> error + number list" where
  \<comment> \<open>the numbers of \<open>availablePhases\<close> in the result of a parse, in the order of that array\<close>
  "availableNumbersOf content folder =
     (case parseTasksFile content folder of
        Inl e \<Rightarrow> Inl e
      | Inr r \<Rightarrow> Inr (map number (availablePhases r)))"

definition nextTaskSpec :: "ParseResult \<Rightarrow> Task option" where
  \<comment> \<open>the specification's words: the first task of \<open>nextPhase\<close> that is not completed\<close>
  "nextTaskSpec r =
     (case nextPhase r of
        None \<Rightarrow> None
      | Some p \<Rightarrow> find (\<lambda>t. \<not> completed t) (tasks p))"

definition nl :: string where
  \<comment> \<open>the line feed that separates the lines of a document\<close>
  "nl = [CHR 0x0A]"

definition phaseWith :: "number \<Rightarrow> bool \<Rightarrow> number list option \<Rightarrow> Phase" where
  \<comment> \<open>a phase as the availability computation reads it: number, completion flag and,
      when there is a dependency record, its \<open>dependsOn\<close>\<close>
  "phaseWith n c d =
     \<lparr>number = n, title = [], priority = None, tasks = [], completedCount = 0,
      totalCount = 0, isComplete = c,
      dependency = map_option (\<lambda>ds. \<lparr>shortName = [], dependsOn = ds, blocks = [],
        canRunParallelWith = [], parallelTasks = [], description = []\<rparr>) d\<rparr>"

definition phaseNumbersOf :: "string \<Rightarrow> string \<Rightarrow> error + number list" where
  \<comment> \<open>the numbers of \<open>phases\<close> in the result of a parse, in the order of that array\<close>
  "phaseNumbersOf content folder =
     (case parseTasksFile content folder of
        Inl e \<Rightarrow> Inl e
      | Inr r \<Rightarrow> Inr (map number (phases r)))"

definition nextTaskIds :: "string \<Rightarrow> string \<Rightarrow> error + (string option \<times> string option)" where
  \<comment> \<open>the identifier of \<open>nextTask\<close> in the result of a parse, beside the identifier of the
      task that the specification describes\<close>
  "nextTaskIds content folder =
     (case parseTasksFile content folder of
        Inl e \<Rightarrow> Inl e
      | Inr r \<Rightarrow> Inr (map_option id_task (nextTask r), map_option id_task (nextTaskSpec r)))"

section \<open>Notions for the dependency map\<close>

definition sameButBlocks :: "PhaseDependency \<Rightarrow> PhaseDependency \<Rightarrow> bool" where
  \<comment> \<open>two records that differ at most in \<open>blocks\<close>\<close>
  "sameButBlocks r r' \<longleftrightarrow>
     shortName r' = shortName r \<and> dependsOn r' = dependsOn r \<and>
     canRunParallelWith r' = canRunParallelWith r \<and> parallelTasks r' = parallelTasks r \<and>
     description r' = description r"

definition grown ::
  "(number \<times> PhaseDependency) list \<Rightarrow> number set \<Rightarrow> number \<Rightarrow> PhaseDependency \<Rightarrow> PhaseDependency \<Rightarrow> bool" where
  \<comment> \<open>the record \<open>r'\<close> at the key \<open>x\<close> is \<open>r\<close> with the keys of \<open>K\<close> that depend on \<open>x\<close>
      added to its blocks, and no entry added twice\<close>
  "grown m K x r r' \<longleftrightarrow>
     sameButBlocks r r' \<and>
     set (blocks r') = set (blocks r) \<union> {k \<in> K. \<exists>dep. map_of m k = Some dep \<and> x \<in> set (dependsOn dep)} \<and>
     (distinct (blocks r) \<longrightarrow> distinct (blocks r'))"

definition statedSections :: "string \<Rightarrow> error + (number \<times> PhaseDependency) list" where
  \<comment> \<open>the map of \<open>parseDependencies\<close> as the two subsections state it, before the
      reverse relationships are built and the blocks are sorted\<close>
  "statedSections content =
     (let lines = split (\<lambda>c. c = CHR 0x0A) content
      in case findIndex (\<lambda>l i. includesStr l DEPENDENCIES_SECTION_START) lines of
           None \<Rightarrow> Inr []
         | Some depSectionStart \<Rightarrow> readSections lines depSectionStart)"

definition blocksOf :: "string \<Rightarrow> number \<Rightarrow> number list option" where
  \<comment> \<open>the blocks of the record that \<open>parseDependencies\<close> returns for a phase number\<close>
  "blocksOf content k =
     (case parseDependencies content of
        Inl e \<Rightarrow> None
      | Inr m \<Rightarrow> map_option blocks (map_of m k))"


fun parsedLines :: "number list \<Rightarrow> string list \<Rightarrow> (number \<times> PhaseDependency) list" where
  \<comment> \<open>the records of the well-formed phase-dependency lines of a block, in its order\<close>
  "parsedLines allPhaseNumbers [] = []"
| "parsedLines allPhaseNumbers (line # ls) =
     (case parsePhaseDependencyLine line allPhaseNumbers of
        Some p \<Rightarrow> p # parsedLines allPhaseNumbers ls
      | None \<Rightarrow> parsedLines allPhaseNumbers ls)"



definition masterList :: "string \<Rightarrow> number list" where
  \<comment> \<open>the phase numbers of the well-formed phase-dependency lines of the whole document\<close>
  "masterList content = collectPhaseNumbers (split (\<lambda>c. c = CHR 0x0A) content)"


definition recordOf :: "string \<Rightarrow> number \<Rightarrow> PhaseDependency option" where
  \<comment> \<open>the record that \<open>parseDependencies\<close> returns for a phase number\<close>
  "recordOf content k =
     (case parseDependencies content of
        Inl e \<Rightarrow> None
      | Inr m \<Rightarrow> map_of m k)"

section \<open>Notions for the parallel tasks\<close>

definition isDouble :: "number \<Rightarrow> bool" where
  \<comment> \<open>the numbers that the program can hold: a non-negative integer below \<open>2 ^ 53\<close>, or
      one of 53 significant binary digits below \<open>2 ^ 1024\<close>, or \<open>Infinity\<close>\<close>
  "isDouble x \<longleftrightarrow>
     (case x of
        enat m \<Rightarrow> m < 2 ^ 53 \<or>
          (m < 2 ^ 1024 \<and> (\<exists>q e. 2 ^ 52 \<le> q \<and> q < 2 ^ 53 \<and> 0 < e \<and> m = q * 2 ^ e))
      | \<infinity> \<Rightarrow> True)"

definition taskIdOfNumber :: "number \<Rightarrow> string" where
  \<comment> \<open>the identifier that the range loop builds for the number \<open>i\<close>\<close>
  "taskIdOfNumber i = CHR ''T'' # padStart3 (numToString i)"

definition fromTo :: "number \<Rightarrow> number \<Rightarrow> number list" where
  \<comment> \<open>the specification's words: the numbers from the start to the end, both included;
      there is none when the start is greater than the end\<close>
  "fromTo s e =
     (case (s, e) of
        (enat m, enat n) \<Rightarrow> map enat [m ..< Suc n]
      | _ \<Rightarrow> [])"

definition taskIdOfDigits :: "string \<Rightarrow> string" where
  \<comment> \<open>the identifier that the second loop builds for the digits of a token\<close>
  "taskIdOfDigits ds = CHR ''T'' # padStart3 ds"

definition expand :: "(string \<times> string) list \<Rightarrow> string list" where
  \<comment> \<open>the identifiers of the numbers from the start to the end of each range, in order\<close>
  "expand ms = concat (map (\<lambda>(a, b). map taskIdOfNumber (fromTo (number_of a) (number_of b))) ms)"

definition rangeIds :: "string \<Rightarrow> string list" where
  \<comment> \<open>the specification's words: every range expression, in the order of the text,
      expanded into the identifiers of the numbers from its start to its end\<close>
  "rangeIds d = expand (matchAll TASK_RANGE_REGEX d)"

definition bareIds :: "string \<Rightarrow> string list" where
  \<comment> \<open>the specification's words: the identifiers of the single tokens, in the order of
      the text, that no range has produced\<close>
  "bareIds d =
     filter (\<lambda>t. t \<notin> set (rangeIds d)) (map taskIdOfDigits (matchAll TASK_ID_REGEX d))"

section \<open>Documents\<close>

definition doc_one_open :: string where
  "doc_one_open =
     ''## Phase 1: Setup'' @ nl @
     ''- [X] T001 Initialize project'' @ nl @
     ''- [ ] T002 Setup dependencies''"

definition doc_out_of_order :: string where
  "doc_out_of_order =
     ''## Phase 2: Build'' @ nl @
     ''- [ ] T001 Compile'' @ nl @
     ''## Phase 1: Setup'' @ nl @
     ''- [ ] T002 Install''"

definition doc_in_order :: string where
  "doc_in_order =
     ''## Phase 1: Setup'' @ nl @
     ''- [X] T001 Install'' @ nl @
     ''## Phase 2: Build'' @ nl @
     ''- [ ] T002 Compile'' @ nl @
     ''## Phase 3: Ship'' @ nl @
     ''- [ ] T003 Publish''"

definition doc_blocks_twice :: string where
  "doc_blocks_twice =
     ''## Dependencies & Execution Order'' @ nl @
     ''### Phase Dependencies'' @ nl @
     ''- **Phase 1 (Setup)**: Blocks Phase 2 and again Blocks Phase 2'' @ nl @
     ''- **Phase 2 (Build)**: No dependencies''"

definition doc_chain :: string where
  "doc_chain =
     ''## Dependencies & Execution Order'' @ nl @
     ''### Phase Dependencies'' @ nl @
     ''- **Phase 3 (Build)**: Depends on Phase 1 and Depends on Phase 2'' @ nl @
     ''- **Phase 1 (Setup)**: No dependencies'' @ nl @
     ''- **Phase 2 (Config)**: Depends on Phase 1''"



definition doc_same_double :: string where
  "doc_same_double =
     ''## Dependencies & Execution Order'' @ nl @
     ''### Phase Dependencies'' @ nl @
     ''- **Phase 9007199254740992 (First)**: No dependencies'' @ nl @
     ''- **Phase 9007199254740993 (Second)**: Depends on all''"

definition doc_huge_range :: string where
  "doc_huge_range =
     ''## Phase 1: Setup'' @ nl @
     ''- [ ] T001 Install'' @ nl @
     ''## Dependencies & Execution Order'' @ nl @
     ''### Parallel Opportunities'' @ nl @
     ''**Phase 1 (Setup)**: T0-T4294967295''"

section \<open>The numbers of the host\<close>

text \<open>
  Rounding to a double is the identity up to \<open>2 ^ 53\<close>. From there on the doubles are
  even, and \<open>i++\<close> leaves a double unchanged or, between \<open>2 ^ 53\<close> and \<open>2 ^ 54\<close>, takes
  it to the next one, which it then leaves unchanged.
\<close>

lemma bitLength_lt: "n < 2 ^ bitLength n"
proof (induction n rule: bitLength.induct)
  case (1 n)
  show ?case
  proof (cases "n = 0")
    case True
    then show ?thesis by simp
  next
    case False
    with 1 have "n div 2 < 2 ^ bitLength (n div 2)" by simp
    then have "n < 2 * 2 ^ bitLength (n div 2)" by linarith
    with False show ?thesis by (subst bitLength.simps) simp
  qed
qed

lemma bitLength_ge: "n \<noteq> 0 \<Longrightarrow> 2 ^ (bitLength n - 1) \<le> n"
proof (induction n rule: bitLength.induct)
  case (1 n)
  show ?case
  proof (cases "n div 2 = 0")
    case True
    with 1(2) have "n = 1" by linarith
    then show ?thesis by (simp add: bitLength.simps)
  next
    case False
    with 1 have "2 ^ (bitLength (n div 2) - 1) \<le> n div 2" by simp
    moreover have "bitLength (n div 2) \<noteq> 0" using False by (subst bitLength.simps) simp
    ultimately have "2 ^ bitLength (n div 2) \<le> 2 * (n div 2)"
      by (cases "bitLength (n div 2)") simp_all
    then have "2 ^ bitLength (n div 2) \<le> n" by linarith
    with 1(2) show ?thesis by (subst bitLength.simps) simp
  qed
qed

lemma bitLength_eq: "2 ^ k \<le> n \<Longrightarrow> n < 2 ^ Suc k \<Longrightarrow> bitLength n = Suc k"
proof -
  assume a: "2 ^ k \<le> n" and b: "n < 2 ^ Suc k"
  have n: "n \<noteq> 0" using a by (cases "n = 0") simp_all
  have "(2::nat) ^ k < 2 ^ bitLength n" using a bitLength_lt [of n] by linarith
  then have 1: "k < bitLength n" by (rule power_less_imp_less_exp [rotated]) simp
  have "(2::nat) ^ (bitLength n - 1) < 2 ^ Suc k" using b bitLength_ge [OF n] by linarith
  then have "bitLength n - 1 < Suc k" by (rule power_less_imp_less_exp [rotated]) simp
  with 1 show ?thesis by linarith
qed

lemma bitLength_small: "n < 2 ^ k \<Longrightarrow> bitLength n \<le> k"
proof (cases "n = 0")
  case True
  then show ?thesis by (simp add: bitLength.simps)
next
  case False
  assume "n < 2 ^ k"
  with bitLength_ge [OF False] have "(2::nat) ^ (bitLength n - 1) < 2 ^ k" by linarith
  then have "bitLength n - 1 < k" by (rule power_less_imp_less_exp [rotated]) simp
  then show ?thesis by simp
qed

lemma roundDouble_exact: "n \<le> 2 ^ 53 \<Longrightarrow> roundDouble n = enat n"
proof (cases "n = 2 ^ 53")
  case True
  have "bitLength n = Suc 53" unfolding True by (rule bitLength_eq) simp_all
  then show ?thesis by (simp add: roundDouble_def roundTo_def True)
next
  case False
  assume "n \<le> 2 ^ 53"
  with False have "n < 2 ^ 53" by simp
  then have "bitLength n - 53 = 0" using bitLength_small [of n 53] by simp
  moreover have "n < 2 ^ 1024" using \<open>n < 2 ^ 53\<close> by simp
  ultimately show ?thesis by (simp add: roundDouble_def roundTo_def)
qed

lemma roundDouble_small: "n \<le> 9007199254740992 \<Longrightarrow> roundDouble n = enat n"
  by (rule roundDouble_exact) simp


lemma isDoubleI:
  "m < 2 ^ 1024 \<Longrightarrow> 2 ^ 52 \<le> q \<Longrightarrow> q < 2 ^ 53 \<Longrightarrow> 0 < e \<Longrightarrow> m = q * 2 ^ e \<Longrightarrow> isDouble (enat m)"
  unfolding isDouble_def by auto

lemma bitLength_large:
  assumes "2 ^ 53 \<le> n"
  obtains e where "0 < e" "bitLength n = 53 + e" "2 ^ 52 * 2 ^ e \<le> n" "n < 2 ^ 53 * 2 ^ e"
proof -
  have n: "n \<noteq> 0" using assms by (cases "n = 0") simp_all
  have "(2::nat) ^ 53 < 2 ^ bitLength n" using assms bitLength_lt [of n] by linarith
  then have 1: "53 < bitLength n" by (rule power_less_imp_less_exp [rotated]) simp
  define e where "e = bitLength n - 53"
  have e: "0 < e" "bitLength n = 53 + e" using 1 by (simp_all add: e_def)
  have "bitLength n - 1 = 52 + e" using e by simp
  with bitLength_ge [OF n] have "2 ^ (52 + e) \<le> n" by simp
  then have lo: "2 ^ 52 * 2 ^ e \<le> n" by (simp only: power_add)
  have "n < 2 ^ (53 + e)" using bitLength_lt [of n] by (simp only: e)
  then have hi: "n < 2 ^ 53 * 2 ^ e" by (simp only: power_add)
  from e lo hi show ?thesis by (rule that)
qed

lemma roundDouble_isDouble: "isDouble (roundDouble n)"
proof (cases "n < 2 ^ 53")
  case True
  then show ?thesis by (simp add: roundDouble_exact isDouble_def)
next
  case False
  then have "2 ^ 53 \<le> n" by simp
  then obtain e where e: "0 < e" "bitLength n = 53 + e" "2 ^ 52 * 2 ^ e \<le> n" "n < 2 ^ 53 * 2 ^ e"
    by (rule bitLength_large)
  define q where "q = n div 2 ^ e"
  define v where "v = roundTo (2 ^ e) n"
  have q1: "2 ^ 52 \<le> q" unfolding q_def using e(3) by (simp add: less_eq_div_iff_mult_less_eq)
  have q2: "q < 2 ^ 53" unfolding q_def using e(4) by (simp add: div_less_iff_less_mult)
  have v: "v = q * 2 ^ e \<or> v = (q + 1) * 2 ^ e"
    unfolding v_def q_def roundTo_def Let_def by (cases "2 * (n mod 2 ^ e) < 2 ^ e \<or> 2 * (n mod 2 ^ e) = 2 ^ e \<and> even (n div 2 ^ e)") (simp_all only: if_True if_False simp_thms)
  have r: "roundDouble n = (if v < 2 ^ 1024 then enat v else \<infinity>)"
    unfolding roundDouble_def v_def Let_def by (simp only: e(2) add_diff_cancel_left')
  show ?thesis
  proof (cases "v < 2 ^ 1024")
    case False
    then show ?thesis by (simp add: r isDouble_def)
  next
    case True
    have "isDouble (enat v)"
    proof (cases "v = q * 2 ^ e")
      case True
      from \<open>v < 2 ^ 1024\<close> q1 q2 e(1) True show ?thesis by (rule isDoubleI)
    next
      case False
      with v have v': "v = (q + 1) * 2 ^ e" by simp
      show ?thesis
      proof (cases "q + 1 < 2 ^ 53")
        case True
        have "2 ^ 52 \<le> q + 1" using q1 by simp
        from \<open>v < 2 ^ 1024\<close> this True e(1) v' show ?thesis by (rule isDoubleI)
      next
        case False
        with q2 have "q + 1 = 2 ^ 53" by simp
        then have "v = 2 ^ 52 * 2 ^ (Suc e)" using v' by simp
        then show ?thesis by (rule isDoubleI [OF \<open>v < 2 ^ 1024\<close>, rotated 3]) simp_all
      qed
    qed
    with True show ?thesis by (simp add: r)
  qed
qed

lemma roundDouble_next:
  assumes q: "2 ^ 52 \<le> q" "q < 2 ^ 53" and e: "0 < e" and m: "q * 2 ^ e < 2 ^ 1024"
  shows "roundDouble (q * 2 ^ e + 1) = enat (if e = 1 \<and> odd q then (q + 1) * 2 else q * 2 ^ e)"
proof -
  have u: "(2::nat) \<le> 2 ^ e" using e by (cases e) simp_all
  have "2 ^ 52 * 2 ^ e \<le> q * 2 ^ e" using q(1) by (rule mult_le_mono1)
  then have lo: "2 ^ (52 + e) \<le> q * 2 ^ e + 1" unfolding power_add by linarith
  have "Suc q * 2 ^ e \<le> 2 ^ 53 * 2 ^ e" using q(2) by (intro mult_le_mono1) simp
  moreover have "Suc q * 2 ^ e = q * 2 ^ e + 2 ^ e" by simp
  ultimately have "q * 2 ^ e + 1 < 2 ^ 53 * 2 ^ e" using u by linarith
  moreover have "(2::nat) ^ Suc (52 + e) = 2 ^ 53 * 2 ^ e" by (simp add: power_add)
  ultimately have hi: "q * 2 ^ e + 1 < 2 ^ Suc (52 + e)" by (simp only:)
  have bl: "bitLength (q * 2 ^ e + 1) = 53 + e" using bitLength_eq [OF lo hi] by simp
  have d: "(q * 2 ^ e + 1) div 2 ^ e = q" using u div_mult_self3 [of "2 ^ e" q 1] by simp
  have r: "(q * 2 ^ e + 1) mod 2 ^ e = 1" using e mod_mult_self3 [of q "2 ^ e" 1] by simp
  show ?thesis
  proof (cases "e = 1")
    case True
    have "(q + 1) * 2 < 2 ^ 1024" using q(2) by simp
    then show ?thesis using m d r unfolding roundDouble_def roundTo_def Let_def bl by (simp add: True)
  next
    case False
    with e obtain e' where e': "e = Suc (Suc e')" by (cases e; cases "e - 1") simp_all
    have "(1::nat) \<le> 2 ^ e'" by simp
    then have "(2::nat) < 2 ^ e" unfolding e' power_Suc by linarith
    then show ?thesis using m False unfolding roundDouble_def roundTo_def Let_def bl add_diff_cancel_left' d r by simp
  qed
qed


lemma numInc_small: "m < 2 ^ 53 \<Longrightarrow> numInc (enat m) = enat (Suc m)"
  by (simp add: numInc_def roundDouble_exact)

lemma isDouble_even: "isDouble (enat m) \<Longrightarrow> 2 ^ 53 \<le> m \<Longrightarrow> even m"
  by (auto simp: isDouble_def)

lemma isDouble_simps: "isDouble \<infinity>" "isDouble 0"
  by (simp_all add: isDouble_def zero_enat_def)

lemma isDouble_numInc: "isDouble (numInc i)"
  by (cases i) (simp_all add: numInc_def roundDouble_isDouble isDouble_simps)

lemma isDouble_number_of: "isDouble (number_of m)"
  by (simp add: number_of_def parseInt_def Let_def roundDouble_isDouble isDouble_simps)

lemma numInc_large:
  assumes "isDouble (enat m)" and "2 ^ 53 \<le> m"
  shows "numInc (enat m) = enat m \<or>
         (numInc (enat m) = enat (m + 2) \<and> numInc (enat (m + 2)) = enat (m + 2) \<and> m < 2 ^ 54)"
proof -
  from assms obtain q e where
    qe: "m < 2 ^ 1024" "2 ^ 52 \<le> q" "q < 2 ^ 53" "0 < e" "m = q * 2 ^ e"
    by (auto simp: isDouble_def)
  have 1: "numInc (enat m) = enat (if e = 1 \<and> odd q then (q + 1) * 2 else q * 2 ^ e)"
    unfolding numInc_def using roundDouble_next [OF qe(2,3,4)] qe(1,5) by simp
  show ?thesis
  proof (cases "e = 1 \<and> odd q")
    case False
    then show ?thesis using 1 qe(5) by auto
  next
    case True
    then have m2: "m + 2 = (q + 1) * 2" using qe(5) by simp
    have inc: "numInc (enat m) = enat (m + 2)" using 1 True m2 by simp
    have "q * 2 < 2 ^ 53 * 2" using qe(3) by simp
    then have lt: "m < 2 ^ 54" using qe(5) True by simp
    have "roundDouble (m + 2 + 1) = enat (m + 2)"
    proof (cases "q + 1 < 2 ^ 53")
      case lt: True
      have "2 ^ 52 \<le> q + 1" using qe(2) by simp
      moreover have "(q + 1) * 2 ^ 1 < 2 ^ 1024" using lt by simp
      ultimately have "roundDouble ((q + 1) * 2 ^ 1 + 1) =
          enat (if (1::nat) = 1 \<and> odd (q + 1) then (q + 1 + 1) * 2 else (q + 1) * 2 ^ 1)"
        using lt by (intro roundDouble_next) simp_all
      then show ?thesis using True m2 by simp
    next
      case False
      with qe(3) have q: "q + 1 = 2 ^ 53" by simp
      have "roundDouble (2 ^ 52 * 2 ^ 2 + 1) =
          enat (if (2::nat) = 1 \<and> odd ((2::nat) ^ 52) then (2 ^ 52 + 1) * 2 else 2 ^ 52 * 2 ^ 2)"
        by (intro roundDouble_next) simp_all
      then show ?thesis unfolding m2 q by simp
    qed
    then have "numInc (enat (m + 2)) = enat (m + 2)" by (simp add: numInc_def)
    with inc lt show ?thesis by simp
  qed
qed

lemma fromTo_Nil: "\<not> i \<le> e \<Longrightarrow> fromTo i e = []"
  by (cases i; cases e) (simp_all add: fromTo_def)

lemma fromTo_step:
  assumes "isDouble i" and "isDouble e" and "i \<le> e"
  shows "fromTo i e = i # fromTo (numInc i) e \<or>
         (numInc i \<le> e \<and> numInc (numInc i) = numInc i) \<or> e = \<infinity>"
proof (cases e)
  case infinity
  then show ?thesis by simp
next
  case (enat n)
  with assms(3) obtain m where i: "i = enat m" and mn: "m \<le> n" by (cases i) simp_all
  show ?thesis
  proof (cases "m < 2 ^ 53")
    case True
    have "[m ..< Suc n] = m # [Suc m ..< Suc n]" using mn by (simp add: upt_conv_Cons)
    then show ?thesis
      unfolding i enat numInc_small [OF True] by (simp add: fromTo_def del: upt_Suc)
  next
    case False
    then have big: "2 ^ 53 \<le> m" by simp
    from numInc_large [OF assms(1) [unfolded i] big] show ?thesis
    proof
      assume "numInc (enat m) = enat m"
      then show ?thesis using assms(3) by (simp add: i)
    next
      assume a: "numInc (enat m) = enat (m + 2) \<and> numInc (enat (m + 2)) = enat (m + 2) \<and> m < 2 ^ 54"
      show ?thesis
      proof (cases "m + 2 \<le> n")
        case True
        with a show ?thesis by (simp add: i enat)
      next
        case False
        have "even m" using assms(1) big unfolding i by (rule isDouble_even)
        moreover have "even n" using assms(2) big mn unfolding enat by (intro isDouble_even) simp_all
        ultimately have "n = m" using False mn by presburger
        then show ?thesis using a by (simp add: i enat fromTo_def)
      qed
    qed
  qed
qed

lemma error_eq: "(x :: error) = RangeError"
  by (cases x) simp

lemma rangeLoop_stuck:
  "i \<le> e \<Longrightarrow> numInc i = i \<Longrightarrow> rangeLoop i e ts ps = Inl RangeError"
proof (induction i e ts ps rule: rangeLoop.induct)
  case (1 i e ts ps)
  show ?case
    using 1 by (subst rangeLoop.simps) (auto simp: Let_def error_eq split: sum.splits)
qed

lemma rangeLoop_infinity: "rangeLoop i \<infinity> ts ps = Inl RangeError"
proof (induction i "\<infinity> :: enat" ts ps rule: rangeLoop.induct)
  case (1 i ts ps)
  show ?case
    using 1 by (subst rangeLoop.simps) (auto simp: Let_def error_eq split: sum.splits)
qed

lemma rangeLoop_beyond:
  assumes "isDouble (enat m)" and "2 ^ 54 \<le> m" and "enat m \<le> e"
  shows "rangeLoop (enat m) e ts ps = Inl RangeError"
proof -
  have "2 ^ 53 \<le> m" using assms(2) by simp
  with assms(1) have "numInc (enat m) = enat m" using numInc_large [of m] assms(2) by auto
  with assms(3) show ?thesis by (intro rangeLoop_stuck)
qed

section \<open>Evaluation of the model\<close>

text \<open>
  The definitions that a closed instance unfolds when the model is run on a concrete
  document.
\<close>

text \<open>The canonical form of the printable ASCII characters, one equation for each.\<close>

lemma toUpperAscii_ascii:
  "toUpperAscii (CHR 0x20) = CHR 0x20"
  "toUpperAscii (CHR 0x21) = CHR 0x21"
  "toUpperAscii (CHR 0x22) = CHR 0x22"
  "toUpperAscii (CHR 0x23) = CHR 0x23"
  "toUpperAscii (CHR 0x24) = CHR 0x24"
  "toUpperAscii (CHR 0x25) = CHR 0x25"
  "toUpperAscii (CHR 0x26) = CHR 0x26"
  "toUpperAscii (CHR 0x27) = CHR 0x27"
  "toUpperAscii (CHR 0x28) = CHR 0x28"
  "toUpperAscii (CHR 0x29) = CHR 0x29"
  "toUpperAscii (CHR 0x2A) = CHR 0x2A"
  "toUpperAscii (CHR 0x2B) = CHR 0x2B"
  "toUpperAscii (CHR 0x2C) = CHR 0x2C"
  "toUpperAscii (CHR 0x2D) = CHR 0x2D"
  "toUpperAscii (CHR 0x2E) = CHR 0x2E"
  "toUpperAscii (CHR 0x2F) = CHR 0x2F"
  "toUpperAscii (CHR 0x30) = CHR 0x30"
  "toUpperAscii (CHR 0x31) = CHR 0x31"
  "toUpperAscii (CHR 0x32) = CHR 0x32"
  "toUpperAscii (CHR 0x33) = CHR 0x33"
  "toUpperAscii (CHR 0x34) = CHR 0x34"
  "toUpperAscii (CHR 0x35) = CHR 0x35"
  "toUpperAscii (CHR 0x36) = CHR 0x36"
  "toUpperAscii (CHR 0x37) = CHR 0x37"
  "toUpperAscii (CHR 0x38) = CHR 0x38"
  "toUpperAscii (CHR 0x39) = CHR 0x39"
  "toUpperAscii (CHR 0x3A) = CHR 0x3A"
  "toUpperAscii (CHR 0x3B) = CHR 0x3B"
  "toUpperAscii (CHR 0x3C) = CHR 0x3C"
  "toUpperAscii (CHR 0x3D) = CHR 0x3D"
  "toUpperAscii (CHR 0x3E) = CHR 0x3E"
  "toUpperAscii (CHR 0x3F) = CHR 0x3F"
  "toUpperAscii (CHR 0x40) = CHR 0x40"
  "toUpperAscii (CHR 0x41) = CHR 0x41"
  "toUpperAscii (CHR 0x42) = CHR 0x42"
  "toUpperAscii (CHR 0x43) = CHR 0x43"
  "toUpperAscii (CHR 0x44) = CHR 0x44"
  "toUpperAscii (CHR 0x45) = CHR 0x45"
  "toUpperAscii (CHR 0x46) = CHR 0x46"
  "toUpperAscii (CHR 0x47) = CHR 0x47"
  "toUpperAscii (CHR 0x48) = CHR 0x48"
  "toUpperAscii (CHR 0x49) = CHR 0x49"
  "toUpperAscii (CHR 0x4A) = CHR 0x4A"
  "toUpperAscii (CHR 0x4B) = CHR 0x4B"
  "toUpperAscii (CHR 0x4C) = CHR 0x4C"
  "toUpperAscii (CHR 0x4D) = CHR 0x4D"
  "toUpperAscii (CHR 0x4E) = CHR 0x4E"
  "toUpperAscii (CHR 0x4F) = CHR 0x4F"
  "toUpperAscii (CHR 0x50) = CHR 0x50"
  "toUpperAscii (CHR 0x51) = CHR 0x51"
  "toUpperAscii (CHR 0x52) = CHR 0x52"
  "toUpperAscii (CHR 0x53) = CHR 0x53"
  "toUpperAscii (CHR 0x54) = CHR 0x54"
  "toUpperAscii (CHR 0x55) = CHR 0x55"
  "toUpperAscii (CHR 0x56) = CHR 0x56"
  "toUpperAscii (CHR 0x57) = CHR 0x57"
  "toUpperAscii (CHR 0x58) = CHR 0x58"
  "toUpperAscii (CHR 0x59) = CHR 0x59"
  "toUpperAscii (CHR 0x5A) = CHR 0x5A"
  "toUpperAscii (CHR 0x5B) = CHR 0x5B"
  "toUpperAscii (CHR 0x5C) = CHR 0x5C"
  "toUpperAscii (CHR 0x5D) = CHR 0x5D"
  "toUpperAscii (CHR 0x5E) = CHR 0x5E"
  "toUpperAscii (CHR 0x5F) = CHR 0x5F"
  "toUpperAscii (CHR 0x60) = CHR 0x60"
  "toUpperAscii (CHR 0x61) = CHR 0x41"
  "toUpperAscii (CHR 0x62) = CHR 0x42"
  "toUpperAscii (CHR 0x63) = CHR 0x43"
  "toUpperAscii (CHR 0x64) = CHR 0x44"
  "toUpperAscii (CHR 0x65) = CHR 0x45"
  "toUpperAscii (CHR 0x66) = CHR 0x46"
  "toUpperAscii (CHR 0x67) = CHR 0x47"
  "toUpperAscii (CHR 0x68) = CHR 0x48"
  "toUpperAscii (CHR 0x69) = CHR 0x49"
  "toUpperAscii (CHR 0x6A) = CHR 0x4A"
  "toUpperAscii (CHR 0x6B) = CHR 0x4B"
  "toUpperAscii (CHR 0x6C) = CHR 0x4C"
  "toUpperAscii (CHR 0x6D) = CHR 0x4D"
  "toUpperAscii (CHR 0x6E) = CHR 0x4E"
  "toUpperAscii (CHR 0x6F) = CHR 0x4F"
  "toUpperAscii (CHR 0x70) = CHR 0x50"
  "toUpperAscii (CHR 0x71) = CHR 0x51"
  "toUpperAscii (CHR 0x72) = CHR 0x52"
  "toUpperAscii (CHR 0x73) = CHR 0x53"
  "toUpperAscii (CHR 0x74) = CHR 0x54"
  "toUpperAscii (CHR 0x75) = CHR 0x55"
  "toUpperAscii (CHR 0x76) = CHR 0x56"
  "toUpperAscii (CHR 0x77) = CHR 0x57"
  "toUpperAscii (CHR 0x78) = CHR 0x58"
  "toUpperAscii (CHR 0x79) = CHR 0x59"
  "toUpperAscii (CHR 0x7A) = CHR 0x5A"
  "toUpperAscii (CHR 0x7B) = CHR 0x7B"
  "toUpperAscii (CHR 0x7C) = CHR 0x7C"
  "toUpperAscii (CHR 0x7D) = CHR 0x7D"
  "toUpperAscii (CHR 0x7E) = CHR 0x7E"
  by (simp_all add: toUpperAscii_def)

text \<open>
  Matching a literal character by character, so that an evaluation stops at the first
  character that differs.
\<close>

lemma startsWith_simps:
  "startsWith s [] = True"
  "startsWith [] (p # ps) = False"
  "startsWith (c # cs) (p # ps) = (if c = p then startsWith cs ps else False)"
  by (simp_all add: startsWith_def)

lemma lit_simps:
  "lit [] k s = k s"
  "lit (p # ps) k [] = None"
  "lit (p # ps) k (c # cs) = (if c = p then lit ps k cs else None)"
  by (simp_all add: lit_def startsWith_def)

lemma litCI_simps:
  "litCI [] k s = k s"
  "litCI (p # ps) k [] = None"
  "litCI (p # ps) k (c # cs) = (if toUpperAscii c = toUpperAscii p then litCI ps k cs else None)"
  by (simp_all add: litCI_def)

lemmas rx_defs = lit_simps chr_def plus_def lazyPlus_def orElse_def eos_def accept_def litCI_simps
  startsWith_simps isDigit_def isSpace_def isDot_def toUpperAscii_ascii

lemmas re_defs = PHASE_DEP_LINE_REGEX_def DEPENDS_ON_REGEX_def DEPENDS_ON_ALL_REGEX_def
  BLOCKS_ALL_REGEX_def BLOCKS_PHASE_REGEX_def PARALLEL_TO_REGEX_def PARALLEL_OPP_LINE_REGEX_def
  TASK_ID_REGEX_def TASK_RANGE_REGEX_def PHASE_HEADER_REGEX_def TASK_LINE_REGEX_def

lemmas str_defs = split_def nl_def trim_def number_of_def parseInt_def decimal_def digitValue_def
  roundDouble_small numeral_eq_enat one_enat_def zero_enat_def

lemmas dep_defs = parseDependencies_def readSections_def findIndex_def DEPENDENCIES_SECTION_START_def
  PHASE_DEPENDENCIES_HEADER_def PARALLEL_OPPORTUNITIES_HEADER_def parsePhaseDependencyLine_def
  Let_def sortBlocks_def buildReverse_def reverseStep_def addBlock_def


lemmas file_defs = parseTasksFile_def parseTaskLine_def finalizePhase_def attachDependencies_def
  calculateAvailablePhases_def calculateAvailablePhases_loop_def getSpecName_def isSeparator_def

text \<open>
  \<open>parseInt\<close> of a capture of \<open>\d+\<close> is never NaN: it is the double nearest to the decimal
  value of the digits.
\<close>

lemma number_of_digits:
  assumes "ds \<noteq> []" and "\<forall>c\<in>set ds. isDigit c"
  shows "parseInt ds = Some (roundDouble (decimal ds)) \<and> number_of ds = roundDouble (decimal ds)"
proof -
  have "\<not> isSpace (hd ds)"
    using assms by (cases ds) (auto simp: isDigit_def isSpace_def)
  then have d: "dropWhile isSpace ds = ds"
    using assms(1) by (cases ds) simp_all
  have t: "takeWhile isDigit ds = ds"
    using assms(2) by (simp add: takeWhile_eq_all_conv)
  show ?thesis
    unfolding parseInt_def number_of_def Let_def d t using assms(1) by simp
qed

section \<open>The spec name\<close>

lemma splitAcc_not_Nil: "splitAcc sep cur s \<noteq> []"
  by (induction s arbitrary: cur) auto

lemma takeWhile_append_if:
  "takeWhile P (xs @ ys) = (if \<forall>x\<in>set xs. P x then xs @ takeWhile P ys else takeWhile P xs)"
  by (induction xs) auto

lemma last_splitAcc:
  "last (splitAcc sep cur s) =
     (if \<exists>c\<in>set s. sep c then rev (takeWhile (\<lambda>c. \<not> sep c) (rev s)) else cur @ s)"
proof (induction s arbitrary: cur)
  case Nil
  then show ?case by simp
next
  case (Cons c cs)
  show ?case
  proof (cases "sep c")
    case True
    then show ?thesis
      using Cons.IH [of "[]"] splitAcc_not_Nil [of sep "[]" cs]
      by (auto simp: takeWhile_append_if)
  next
    case False
    then show ?thesis
      using Cons.IH [of "cur @ [c]"]
      by (auto simp: takeWhile_append_if)
  qed
qed

lemma rev_takeWhile_all:
  "\<forall>x\<in>set p. P x \<Longrightarrow> rev (takeWhile P (rev p)) = p"
  by (simp add: takeWhile_eq_all_conv [THEN iffD2])

lemma getSpecName_eq: "getSpecName p = rev (takeWhile (\<lambda>c. \<not> isSeparator c) (rev p))"
  by (auto simp: getSpecName_def split_def Let_def splitAcc_not_Nil last_splitAcc rev_takeWhile_all)

text \<open>
  Claim C8. The spec name of a path is the text after its last slash or backslash: the
  split never yields an empty array (so the fallback \<open>'unknown'\<close> is never taken), the
  name of the empty path and of a path that ends in a separator is empty, a path without
  a separator is its own name, and after a separator \<open>c\<close> a separator-free segment
  \<open>seg\<close> is the name.
\<close>

theorem getSpecName_last_segment:
  "split isSeparator p \<noteq> [] \<and>
   getSpecName p = rev (takeWhile (\<lambda>c. \<not> isSeparator c) (rev p)) \<and>
   getSpecName [] = [] \<and>
   (isSeparator c \<longrightarrow> getSpecName (q @ [c]) = []) \<and>
   ((\<forall>x\<in>set p. \<not> isSeparator x) \<longrightarrow> getSpecName p = p) \<and>
   (isSeparator c \<and> (\<forall>x\<in>set seg. \<not> isSeparator x) \<longrightarrow> getSpecName (q @ c # seg) = seg)"
proof -
  have "isSeparator c \<and> (\<forall>x\<in>set seg. \<not> isSeparator x) \<longrightarrow> getSpecName (q @ c # seg) = seg"
    by (simp add: getSpecName_eq takeWhile_append_if rev_takeWhile_all)
  then show ?thesis
    by (simp add: getSpecName_eq split_def splitAcc_not_Nil rev_takeWhile_all)
qed

theorem getSpecName_last_segment_witness:
  "getSpecName ''specs/001-site/'' = [] \<and> getSpecName ''001-site'' = ''001-site'' \<and>
   getSpecName (''C:'' @ [CHR 0x5C] @ ''001-site'') = ''001-site'' \<and> getSpecName [] = []"
  using getSpecName_last_segment [of "''001-site''" "CHR ''/''" "''specs/001-site''" "[]"]
    getSpecName_last_segment [of "[]" "CHR 0x5C" "''C:''" "''001-site''"]
  by (simp add: isSeparator_def)

section \<open>The availability engine\<close>

lemma calculateAvailablePhases_loop_eq:
  "calculateAvailablePhases_loop C ps acc =
     acc @ map number (filter (\<lambda>p. \<not> isComplete p \<and>
       (case dependency p of None \<Rightarrow> True | Some dep \<Rightarrow> \<forall>d\<in>set (dependsOn dep). d \<in> C)) ps)"
  unfolding calculateAvailablePhases_loop_def
  by (induction ps arbitrary: acc) (auto simp: list_all_iff split: option.splits)

lemma calculateAvailablePhases_eq:
  "calculateAvailablePhases ps = sort (map number (filter (available_spec ps) ps))"
proof -
  have "(\<lambda>p. \<not> isComplete p \<and>
         (case dependency p of None \<Rightarrow> True
          | Some dep \<Rightarrow> \<forall>d\<in>set (dependsOn dep). d \<in> number ` {x \<in> set ps. isComplete x}))
        = available_spec ps"
    by (auto simp: available_spec_def fun_eq_iff split: option.splits)
  then show ?thesis
    by (simp add: calculateAvailablePhases_def calculateAvailablePhases_loop_eq Let_def)
qed

text \<open>
  Claim C2. \<open>calculateAvailablePhases\<close> returns the numbers of exactly the phases that are
  not complete and whose every \<open>dependsOn\<close> entry is the number of a complete phase of the
  list, sorted ascending whatever the order of the input; a phase without a dependency
  record, or with an empty \<open>dependsOn\<close>, counts iff it is not complete.
\<close>

theorem calculateAvailablePhases_correct:
  "calculateAvailablePhases ps = sort (map number (filter (available_spec ps) ps)) \<and>
   sorted (calculateAvailablePhases ps) \<and>
   set (calculateAvailablePhases ps) = number ` {p \<in> set ps. available_spec ps p} \<and>
   (dependency p = None \<or> (\<exists>dep. dependency p = Some dep \<and> dependsOn dep = []) \<longrightarrow>
      (available_spec ps p \<longleftrightarrow> \<not> isComplete p))"
  by (auto simp: calculateAvailablePhases_eq available_spec_def)

theorem calculateAvailablePhases_correct_witness:
  "calculateAvailablePhases
     [phaseWith 3 False (Some [1, 2]), phaseWith 2 False None, phaseWith 1 True (Some [])] = [2] \<and>
   available_spec
     [phaseWith 3 False (Some [1, 2]), phaseWith 2 False None, phaseWith 1 True (Some [])]
     (phaseWith 2 False None)"
  using calculateAvailablePhases_correct
    [of "[phaseWith 3 False (Some [1, 2]), phaseWith 2 False None, phaseWith 1 True (Some [])]"
        "phaseWith 2 False None"]
  by (simp add: available_spec_def phaseWith_def)

section \<open>The result of a parse\<close>

lemma nextTask_unset: "parseTasksFile content folder = Inr r \<Longrightarrow> nextTask r = None"
  by (auto simp: parseTasksFile_def Let_def split: sum.splits prod.splits)

text \<open>
  Claim C1. The result's \<open>nextTask\<close> should be the first task of \<open>nextPhase\<close> that is not
  completed. \<open>parseTasksFile\<close> never writes the field: for the document with one phase whose
  task T001 is done and T002 is not, \<open>nextPhase\<close> is that phase and its first open task is
  T002, but \<open>nextTask\<close> is absent.
\<close>

theorem nextTask_missing:
  "nextTaskIds doc_one_open ''specs/001-site'' = Inr (None, Some ''T002'')"
  by (simp add: nextTaskIds_def nextTaskSpec_def doc_one_open_def
      str_defs dep_defs file_defs rx_defs re_defs)

text \<open>
  Claim C6, as stated, fails: with Phase 2 written before Phase 1 and both open,
  \<open>availablePhases\<close> holds Phase 2 and then Phase 1.
\<close>

theorem availablePhases_unsorted:
  "availableNumbersOf doc_out_of_order ''specs/001-site'' = Inr [2, 1] \<and> \<not> sorted [2, 1 :: number]"
  by (simp add: availableNumbersOf_def doc_out_of_order_def
      str_defs dep_defs file_defs rx_defs re_defs)

text \<open>
  Claim C6, amended. \<open>availablePhases\<close> holds exactly the phases of the main list that are
  not complete and whose number the availability computation returns, in the order of the
  document; it is sorted ascending by phase number when the phases of the document are.
\<close>

theorem availablePhases_document_order:
  assumes "parseTasksFile content folder = Inr r"
  shows "availablePhases r =
           filter (\<lambda>p. number p \<in> set (calculateAvailablePhases (phases r)) \<and> \<not> isComplete p)
             (phases r) \<and>
         (sorted (map number (phases r)) \<longrightarrow> sorted (map number (availablePhases r)))"
  using assms
  by (auto simp: parseTasksFile_def Let_def sorted_filter split: sum.splits prod.splits)

lemma phaseNumbersOf_doc_in_order: "phaseNumbersOf doc_in_order ''specs/001-site'' = Inr [1, 2, 3]"
  by (simp add: phaseNumbersOf_def doc_in_order_def str_defs dep_defs file_defs rx_defs re_defs)

lemma availableNumbersOf_doc_in_order: "availableNumbersOf doc_in_order ''specs/001-site'' = Inr [2, 3]"
  by (simp add: availableNumbersOf_def doc_in_order_def str_defs dep_defs file_defs rx_defs re_defs)

theorem availablePhases_document_order_witness:
  "\<exists>r. parseTasksFile doc_in_order ''specs/001-site'' = Inr r \<and>
       map number (phases r) = [1, 2, 3] \<and>
       availablePhases r =
         filter (\<lambda>p. number p \<in> set (calculateAvailablePhases (phases r)) \<and> \<not> isComplete p)
           (phases r) \<and>
       map number (availablePhases r) = [2, 3] \<and>
       sorted (map number (availablePhases r))"
proof -
  obtain r where r: "parseTasksFile doc_in_order ''specs/001-site'' = Inr r"
    using phaseNumbersOf_doc_in_order by (auto simp: phaseNumbersOf_def split: sum.splits)
  have p: "map number (phases r) = [1, 2, 3]"
    using phaseNumbersOf_doc_in_order r by (simp add: phaseNumbersOf_def)
  have a: "map number (availablePhases r) = [2, 3]"
    using availableNumbersOf_doc_in_order r by (simp add: availableNumbersOf_def)
  show ?thesis
    using availablePhases_document_order [OF r] r p a by simp
qed

section \<open>The reverse relationships\<close>

lemma keys_addBlock: "map fst (addBlock k d m) = map fst m"
  by (auto simp: addBlock_def update_keys split: option.splits dest: map_of_SomeD weak_map_of_SomeI
      intro: rev_image_eqI)

lemma map_of_addBlock:
  "map_of (addBlock k d m) x =
     (case map_of m x of
        None \<Rightarrow> None
      | Some r \<Rightarrow> Some (if x = d \<and> k \<notin> set (blocks r) then r\<lparr>blocks := blocks r @ [k]\<rparr> else r))"
  by (auto simp: addBlock_def update_conv' split: option.splits)

lemma keys_fold_addBlock: "map fst (fold (addBlock k) ds m) = map fst m"
  by (induction ds arbitrary: m) (simp_all add: keys_addBlock)

lemma map_of_fold_addBlock:
  "map_of (fold (addBlock k) ds m) x =
     (case map_of m x of
        None \<Rightarrow> None
      | Some r \<Rightarrow> Some (if x \<in> set ds \<and> k \<notin> set (blocks r) then r\<lparr>blocks := blocks r @ [k]\<rparr> else r))"
proof (induction ds arbitrary: m)
  case Nil
  then show ?case by (simp split: option.splits)
next
  case (Cons d ds)
  show ?case
    by (simp add: Cons.IH map_of_addBlock split: option.splits)
qed

lemma keys_reverseStep: "map fst (reverseStep k m) = map fst m"
  by (simp add: reverseStep_def keys_fold_addBlock split: option.splits)

lemma map_of_reverseStep:
  "map_of (reverseStep k m) x =
     (case map_of m x of
        None \<Rightarrow> None
      | Some r \<Rightarrow>
          Some (if (\<exists>dep. map_of m k = Some dep \<and> x \<in> set (dependsOn dep)) \<and> k \<notin> set (blocks r)
                then r\<lparr>blocks := blocks r @ [k]\<rparr> else r))"
  by (simp add: reverseStep_def map_of_fold_addBlock split: option.splits)

lemma fold_reverseStep:
  "rel_option (grown m (set ks) x) (map_of m x) (map_of (fold reverseStep ks m) x)"
proof (induction ks arbitrary: m)
  case Nil
  show ?case by (cases "map_of m x") (simp_all add: grown_def sameButBlocks_def)
next
  case (Cons k ks)
  let ?m1 = "reverseStep k m"
  have dep: "\<And>j. (\<exists>dep. map_of ?m1 j = Some dep \<and> x \<in> set (dependsOn dep)) =
                 (\<exists>dep. map_of m j = Some dep \<and> x \<in> set (dependsOn dep))"
    by (auto simp: map_of_reverseStep split: option.splits)
  show ?case
  proof (cases "map_of m x")
    case None
    then have "map_of ?m1 x = None" by (simp add: map_of_reverseStep)
    with Cons.IH [of ?m1] None show ?thesis by (simp add: option.rel_sel)
  next
    case (Some r)
    then obtain r1 where r1: "map_of ?m1 x = Some r1"
      and r1_eq: "r1 = (if (\<exists>dep. map_of m k = Some dep \<and> x \<in> set (dependsOn dep)) \<and> k \<notin> set (blocks r)
                then r\<lparr>blocks := blocks r @ [k]\<rparr> else r)"
      by (simp add: map_of_reverseStep)
    from Cons.IH [of ?m1] r1 obtain r' where r': "map_of (fold reverseStep ks ?m1) x = Some r'"
      and g: "grown ?m1 (set ks) x r1 r'"
      by (auto simp: option_rel_Some1)
    have "grown m (set (k # ks)) x r r'"
      using g r1_eq unfolding grown_def dep sameButBlocks_def
      by (auto split: if_splits)
    with Some r' show ?thesis by simp
  qed
qed

lemma map_of_sortBlocks:
  "map_of (sortBlocks m) x = map_option (\<lambda>r. r\<lparr>blocks := sort (blocks r)\<rparr>) (map_of m x)"
  by (induction m) (auto simp: sortBlocks_def)

lemma keys_sortBlocks: "map fst (sortBlocks m) = map fst m"
  by (induction m) (auto simp: sortBlocks_def)

lemma keys_buildReverse: "map fst (buildReverse m) = map fst m"
proof -
  have "map fst (fold reverseStep ks m) = map fst m" for ks
    by (induction ks arbitrary: m) (simp_all add: keys_reverseStep)
  then show ?thesis by (simp add: buildReverse_def)
qed

lemma keys_phaseDepsLoop:
  "distinct (map fst res) \<Longrightarrow> distinct (map fst (phaseDepsLoop all ls res))"
  by (induction ls arbitrary: res) (auto simp: distinct_update split: option.splits)

lemma keys_mergeParallel:
  "distinct (map fst res) \<Longrightarrow> distinct (map fst (mergeParallel ps res))"
  by (induction ps res rule: mergeParallel.induct) (auto simp: distinct_update split: option.splits)

lemma distinct_readSections:
  "readSections lines s = Inr m \<Longrightarrow> distinct (map fst m)"
  by (auto simp: readSections_def Let_def keys_phaseDepsLoop keys_mergeParallel
      split: option.splits sum.splits)

lemma distinct_statedSections:
  "statedSections content = Inr m \<Longrightarrow> distinct (map fst m)"
  by (auto simp: statedSections_def Let_def distinct_readSections split: option.splits)

lemma parseDependencies_stated:
  "parseDependencies content = Inr m \<Longrightarrow>
     \<exists>pre. statedSections content = Inr pre \<and> m = sortBlocks (buildReverse pre)"
  by (auto simp: parseDependencies_def statedSections_def Let_def sortBlocks_def buildReverse_def
      split: option.splits sum.splits)

lemma final_record:
  assumes "map_of (sortBlocks (buildReverse pre)) x = Some r"
  shows "\<exists>r0. map_of pre x = Some r0 \<and> sameButBlocks r0 r \<and> sorted (blocks r) \<and>
           set (blocks r) = set (blocks r0) \<union> {k. \<exists>dep. map_of pre k = Some dep \<and> x \<in> set (dependsOn dep)} \<and>
           (distinct (blocks r0) \<longrightarrow> distinct (blocks r))"
proof -
  from assms obtain r1 where r1: "map_of (buildReverse pre) x = Some r1"
    and r: "r = r1\<lparr>blocks := sort (blocks r1)\<rparr>"
    by (auto simp: map_of_sortBlocks)
  from fold_reverseStep [of pre "map fst pre" x] r1
  obtain r0 where r0: "map_of pre x = Some r0" and g: "grown pre (set (map fst pre)) x r0 r1"
    by (auto simp: buildReverse_def option_rel_Some2)
  have keys: "{k \<in> set (map fst pre). \<exists>dep. map_of pre k = Some dep \<and> x \<in> set (dependsOn dep)} =
              {k. \<exists>dep. map_of pre k = Some dep \<and> x \<in> set (dependsOn dep)}"
    by (auto dest: map_of_SomeD intro: rev_image_eqI)
  show ?thesis
    using r0 g r unfolding grown_def keys sameButBlocks_def by auto
qed

lemma dependsOn_final:
  "(\<exists>rb. map_of (sortBlocks (buildReverse pre)) b = Some rb \<and> a \<in> set (dependsOn rb)) =
   (\<exists>dep. map_of pre b = Some dep \<and> a \<in> set (dependsOn dep))"
proof
  assume "\<exists>rb. map_of (sortBlocks (buildReverse pre)) b = Some rb \<and> a \<in> set (dependsOn rb)"
  then show "\<exists>dep. map_of pre b = Some dep \<and> a \<in> set (dependsOn dep)"
    using final_record [of pre b] unfolding sameButBlocks_def by fastforce
next
  assume "\<exists>dep. map_of pre b = Some dep \<and> a \<in> set (dependsOn dep)"
  then obtain dep where d: "map_of pre b = Some dep" "a \<in> set (dependsOn dep)" by blast
  from fold_reverseStep [of pre "map fst pre" b] d(1)
  obtain r1 where "map_of (buildReverse pre) b = Some r1" "sameButBlocks dep r1"
    by (auto simp: buildReverse_def option_rel_Some1 grown_def)
  then show "\<exists>rb. map_of (sortBlocks (buildReverse pre)) b = Some rb \<and> a \<in> set (dependsOn rb)"
    using d(2) by (auto simp: map_of_sortBlocks sameButBlocks_def)
qed

text \<open>
  Claim C3, amended. In the map that \<open>parseDependencies\<close> returns the keys are distinct;
  if the record of \<open>b\<close> has \<open>a\<close> in its \<open>dependsOn\<close> and \<open>a\<close> has a record, the record of
  \<open>a\<close> has \<open>b\<close> in its \<open>blocks\<close>; every \<open>blocks\<close> is sorted ascending; and the entries of a
  \<open>blocks\<close> are those that the line of the phase states together with the phases that
  depend on it, where the reverse relationships add no entry twice: a \<open>blocks\<close> has a
  duplicate only if the blocks stated on the line already have one.
\<close>

theorem reverse_edges:
  assumes "parseDependencies content = Inr m"
  shows "distinct (map fst m) \<and>
         (\<forall>a b ra rb. map_of m b = Some rb \<and> a \<in> set (dependsOn rb) \<and> map_of m a = Some ra
            \<longrightarrow> b \<in> set (blocks ra)) \<and>
         (\<forall>a ra. map_of m a = Some ra \<longrightarrow> sorted (blocks ra)) \<and>
         (\<exists>pre. statedSections content = Inr pre \<and>
            (\<forall>a ra. map_of m a = Some ra \<longrightarrow>
               (\<exists>r0. map_of pre a = Some r0 \<and>
                  set (blocks ra) = set (blocks r0) \<union>
                    {b. \<exists>rb. map_of m b = Some rb \<and> a \<in> set (dependsOn rb)} \<and>
                  (distinct (blocks r0) \<longrightarrow> distinct (blocks ra)))))"
proof -
  from parseDependencies_stated [OF assms] obtain pre
    where pre: "statedSections content = Inr pre" and m: "m = sortBlocks (buildReverse pre)"
    by blast
  have deps: "(\<exists>rb. map_of m b = Some rb \<and> a \<in> set (dependsOn rb)) =
              (\<exists>dep. map_of pre b = Some dep \<and> a \<in> set (dependsOn dep))" for a b
    unfolding m by (rule dependsOn_final)
  have 1: "distinct (map fst m)"
    using distinct_statedSections [OF pre] by (simp add: m keys_sortBlocks keys_buildReverse)
  have 4: "\<forall>a ra. map_of m a = Some ra \<longrightarrow>
               (\<exists>r0. map_of pre a = Some r0 \<and> sorted (blocks ra) \<and>
                  set (blocks ra) = set (blocks r0) \<union>
                    {b. \<exists>rb. map_of m b = Some rb \<and> a \<in> set (dependsOn rb)} \<and>
                  (distinct (blocks r0) \<longrightarrow> distinct (blocks ra)))"
    unfolding deps using final_record [of pre] unfolding m by blast
  have 2: "\<forall>a b ra rb. map_of m b = Some rb \<and> a \<in> set (dependsOn rb) \<and> map_of m a = Some ra
            \<longrightarrow> b \<in> set (blocks ra)"
    using 4 by fastforce
  show ?thesis using 1 2 4 pre by blast
qed

text \<open>
  Claim C3, as stated, fails: a line that states the same block twice yields a \<open>blocks\<close>
  with that entry twice.
\<close>

theorem blocks_duplicate:
  "blocksOf doc_blocks_twice 1 = Some [2, 2] \<and> \<not> distinct [2, 2 :: number]"
  by (simp add: blocksOf_def doc_blocks_twice_def str_defs dep_defs rx_defs re_defs matchAll.simps)

lemma blocksOf_doc_chain: "blocksOf doc_chain 1 = Some [2, 3]"
  by (simp add: blocksOf_def doc_chain_def str_defs dep_defs rx_defs re_defs matchAll.simps)

theorem reverse_edges_witness:
  "\<exists>m r1. parseDependencies doc_chain = Inr m \<and> map_of m 1 = Some r1 \<and> blocks r1 = [2, 3] \<and>
          sorted (blocks r1) \<and> distinct (map fst m)"
proof -
  obtain m r1 where m: "parseDependencies doc_chain = Inr m" and r1: "map_of m 1 = Some r1"
    and b: "blocks r1 = [2, 3]"
    using blocksOf_doc_chain by (auto simp: blocksOf_def split: sum.splits)
  show ?thesis
    using reverse_edges [OF m] m r1 b by blast
qed

section \<open>The Phase Dependencies block\<close>












lemma parsedLines_mem:
  "(n, d) \<in> set (parsedLines all ls) \<Longrightarrow> \<exists>l\<in>set ls. parsePhaseDependencyLine l all = Some (n, d)"
  by (induction ls) (auto split: option.splits)

lemma parsedLines_parallelTasks:
  "(n, d) \<in> set (parsedLines all ls) \<Longrightarrow> parallelTasks d = []"
  by (auto dest!: parsedLines_mem simp: parsePhaseDependencyLine_def Let_def split: option.splits)















text \<open>
  Two phase numbers that are written differently can be the same double: the second line
  below replaces the first, and no number of the master list is below its own.
\<close>

lemma same_double:
  "masterList doc_same_double = [9007199254740992, 9007199254740992]"
  "recordOf doc_same_double 9007199254740992 =
     Some \<lparr>shortName = ''Second'', dependsOn = [], blocks = [], canRunParallelWith = [],
           parallelTasks = [], description = ''Depends on all''\<rparr>"
  by (simp_all add: masterList_def recordOf_def doc_same_double_def str_defs dep_defs rx_defs re_defs
      matchAll.simps roundDouble_def roundTo_def bitLength.simps)




section \<open>The parallel tasks\<close>

text \<open>
  When the range loop returns, it has added the identifiers of the numbers from its start
  to its end, in order. It returns only if every \<open>i++\<close> on its way changes \<open>i\<close>.
\<close>

lemma rangeLoop_unfold:
  assumes "rangeLoop i e ts ps = Inr (ts', ps')" and "i \<le> e"
  obtains ts1 ps1 where
    "push ts (CHR ''T'' # padStart3 (numToString i)) = Inr ts1"
    "setAdd ps (CHR ''T'' # padStart3 (numToString i)) = Inr ps1"
    "rangeLoop (numInc i) e ts1 ps1 = Inr (ts', ps')"
  using assms by (subst (asm) rangeLoop.simps) (auto simp: Let_def split: sum.splits)

lemma rangeLoop_Inr:
  "rangeLoop i e ts ps = Inr (ts', ps') \<Longrightarrow> isDouble i \<Longrightarrow> isDouble e \<Longrightarrow>
   ts' = ts @ map taskIdOfNumber (fromTo i e) \<and>
   set ps' = set ps \<union> set (map taskIdOfNumber (fromTo i e))"
proof (induction i e ts ps rule: rangeLoop.induct)
  case (1 i e ts ps)
  show ?case
  proof (cases "i \<le> e")
    case False
    with "1.prems"(1) show ?thesis by (simp add: rangeLoop.simps [of i e] fromTo_Nil)
  next
    case True
    define x where "x = CHR ''T'' # padStart3 (numToString i)"
    from "1.prems"(1) True obtain ts1 ps1 where
      a: "push ts x = Inr ts1" "setAdd ps x = Inr ps1"
         "rangeLoop (numInc i) e ts1 ps1 = Inr (ts', ps')"
      unfolding x_def by (rule rangeLoop_unfold)
    have ts1: "ts1 = ts @ [x]" using a(1) by (auto simp: push_def split: if_splits)
    have ps1: "set ps1 = insert x (set ps)" using a(2) by (auto simp: setAdd_def split: if_splits)
    have IH: "ts' = ts1 @ map taskIdOfNumber (fromTo (numInc i) e) \<and>
              set ps' = set ps1 \<union> set (map taskIdOfNumber (fromTo (numInc i) e))"
      using True x_def a isDouble_numInc "1.prems"(3) by (rule "1.IH")
    have e: "e \<noteq> \<infinity>"
    proof
      assume "e = \<infinity>"
      with "1.prems"(1) rangeLoop_infinity [of i ts ps] show False by simp
    qed
    have ns: "\<not> (numInc i \<le> e \<and> numInc (numInc i) = numInc i)"
      using a(3) by (auto simp: rangeLoop_stuck)
    from fromTo_step [OF "1.prems"(2,3) True] e ns have "fromTo i e = i # fromTo (numInc i) e"
      by simp
    then show ?thesis using IH ts1 ps1 by (simp add: x_def taskIdOfNumber_def)
  qed
qed

lemma rangeLoop_length:
  "rangeLoop i e ts ps = Inr (ts', ps') \<Longrightarrow> length ts \<le> MAX_ARRAY_LENGTH \<Longrightarrow>
   length ts' \<le> MAX_ARRAY_LENGTH"
proof (induction i e ts ps rule: rangeLoop.induct)
  case (1 i e ts ps)
  show ?case
  proof (cases "i \<le> e")
    case False
    with "1.prems" show ?thesis by (simp add: rangeLoop.simps [of i e])
  next
    case True
    define x where "x = CHR ''T'' # padStart3 (numToString i)"
    from "1.prems"(1) True obtain ts1 ps1 where
      a: "push ts x = Inr ts1" "setAdd ps x = Inr ps1"
         "rangeLoop (numInc i) e ts1 ps1 = Inr (ts', ps')"
      unfolding x_def by (rule rangeLoop_unfold)
    have "length ts1 \<le> MAX_ARRAY_LENGTH" using a(1) by (auto simp: push_def split: if_splits)
    with True x_def a show ?thesis by (rule "1.IH")
  qed
qed

lemma expand_Cons:
  "expand ((a, b) # ms) = map taskIdOfNumber (fromTo (number_of a) (number_of b)) @ expand ms"
  by (simp add: expand_def)

lemma rangesLoop_Inr:
  "rangesLoop ms ts ps = Inr (ts', ps') \<Longrightarrow>
   ts' = ts @ expand ms \<and> set ps' = set ps \<union> set (expand ms)"
proof (induction ms arbitrary: ts ps)
  case Nil
  then show ?case by (simp add: expand_def)
next
  case (Cons m ms)
  obtain a b where m: "m = (a, b)" by (cases m)
  from Cons.prems obtain ts1 ps1 where
    1: "rangeLoop (number_of a) (number_of b) ts ps = Inr (ts1, ps1)" and
    2: "rangesLoop ms ts1 ps1 = Inr (ts', ps')"
    unfolding m by (auto split: sum.splits)
  from rangeLoop_Inr [OF 1 isDouble_number_of isDouble_number_of] Cons.IH [OF 2]
  show ?case unfolding m expand_Cons by auto
qed

lemma idsLoop_Cons:
  "idsLoop (m # ms) ps ts =
     (if taskIdOfDigits m \<notin> set ps
      then (case push ts (taskIdOfDigits m) of
              Inl e \<Rightarrow> Inl e
            | Inr ts' \<Rightarrow> idsLoop ms ps ts')
      else idsLoop ms ps ts)"
  by (simp add: taskIdOfDigits_def Let_def)

lemma idsLoop_Inr:
  "idsLoop ms ps ts = Inr ts' \<Longrightarrow>
   ts' = ts @ filter (\<lambda>t. t \<notin> set ps) (map taskIdOfDigits ms)"
proof (induction ms arbitrary: ts)
  case Nil
  then show ?case by simp
next
  case (Cons m ms)
  show ?case
  proof (cases "taskIdOfDigits m \<notin> set ps")
    case True
    with Cons.prems have "idsLoop ms ps (ts @ [taskIdOfDigits m]) = Inr ts'"
      by (auto simp: push_def idsLoop_Cons simp del: idsLoop.simps split: if_splits)
    from Cons.IH [OF this] True show ?thesis by simp
  next
    case False
    with Cons.prems have "idsLoop ms ps ts = Inr ts'"
      by (simp add: idsLoop_Cons del: idsLoop.simps)
    from Cons.IH [OF this] False show ?thesis by simp
  qed
qed

lemma newSetLoop_Inr:
  "newSetLoop xs s = Inr s' \<Longrightarrow> distinct s \<Longrightarrow> set s' = set s \<union> set xs \<and> distinct s'"
proof (induction xs arbitrary: s)
  case Nil
  then show ?case by simp
next
  case (Cons x xs)
  from Cons.prems(1) obtain s1 where 1: "setAdd s x = Inr s1" and 2: "newSetLoop xs s1 = Inr s'"
    by (auto split: sum.splits)
  from 1 Cons.prems(2) have "set s1 = insert x (set s)" "distinct s1"
    by (auto simp: setAdd_def split: if_splits)
  with Cons.IH [OF 2] show ?case by auto
qed

lemma sort_remdups_cong: "set xs = set ys \<Longrightarrow> sort (remdups xs) = sort (remdups ys)"
  by (rule sorted_distinct_set_unique) simp_all

lemma extractParallelTasks_Inr:
  assumes "extractParallelTasks d = Inr r"
  shows "r = sort (remdups (rangeIds d @ bareIds d))"
proof -
  from assms obtain ts ps ts' s where
    1: "rangesLoop (matchAll TASK_RANGE_REGEX d) [] [] = Inr (ts, ps)" and
    2: "idsLoop (matchAll TASK_ID_REGEX d) ps ts = Inr ts'" and
    3: "newSet ts' = Inr s" and r: "r = sort s"
    by (auto simp: extractParallelTasks_def split: sum.splits)
  from rangesLoop_Inr [OF 1] have ts: "ts = rangeIds d" "set ps = set (rangeIds d)"
    by (simp_all add: rangeIds_def)
  from idsLoop_Inr [OF 2] have ts': "ts' = rangeIds d @ bareIds d"
    by (simp add: ts bareIds_def)
  from newSetLoop_Inr [OF 3 [unfolded newSet_def]] have "set s = set ts'" "distinct s"
    by simp_all
  then have "sort s = sort (remdups ts')"
    by (intro sorted_distinct_set_unique) simp_all
  then show ?thesis by (simp add: r ts')
qed

lemma padStart3_simps:
  "padStart3 [] = ''000''"
  "padStart3 [a] = [CHR ''0'', CHR ''0'', a]"
  "padStart3 [a, b] = [CHR ''0'', a, b]"
  "padStart3 (a # b # c # s) = a # b # c # s"
  by (simp_all add: padStart3_def numeral_3_eq_3 numeral_2_eq_2)

lemmas par_defs = extractParallelTasks_def rangeLoop.simps push_def setAdd_def
  MAX_ARRAY_LENGTH_def MAX_SET_SIZE_def numInc_def numToString_def toString.simps digitChar_def
  padStart3_simps newSet_def Let_def matchAll.simps

lemma length_padStart3: "length (padStart3 s) = max 3 (length s)"
  by (simp add: padStart3_def)

text \<open>
  Claim C5, as stated, fails: identifiers are not always of exactly three digits. A range
  that reaches 1000 yields T1000, and a token written with four digits keeps them.
\<close>

theorem parallel_tasks_four_digits:
  "extractParallelTasks ''T999-T1000 and T0007'' = Inr [''T0007'', ''T1000'', ''T999'']"
  by (simp add: par_defs str_defs rx_defs re_defs)

text \<open>
  Claim C5, amended. Where \<open>extractParallelTasks\<close> returns a list, the list is built from
  the expansions of the range expressions, each into the identifiers of the numbers from
  its start to its end, followed by the single tokens that no range has produced, then
  deduplicated and sorted lexicographically; an identifier is \<open>T\<close> and at least three
  digits: a number is written in decimal and a token keeps its digits, either padded with
  zeros on the left to three characters when shorter. The description of Example 4
  yields the 17 identifiers T002 to T018.
\<close>

theorem parallel_tasks_expansion:
  assumes "extractParallelTasks d = Inr r"
  shows "r = sort (remdups (rangeIds d @ bareIds d)) \<and>
         length (taskIdOfNumber i) = 1 + max 3 (length (numToString i)) \<and>
         length (taskIdOfDigits ds) = 1 + max 3 (length ds) \<and>
         extractParallelTasks ''T002-T018 can mostly run in parallel'' =
           Inr [''T002'', ''T003'', ''T004'', ''T005'', ''T006'', ''T007'', ''T008'', ''T009'', ''T010'',
                ''T011'', ''T012'', ''T013'', ''T014'', ''T015'', ''T016'', ''T017'', ''T018'']"
proof -
  have "extractParallelTasks ''T002-T018 can mostly run in parallel'' =
     Inr [''T002'', ''T003'', ''T004'', ''T005'', ''T006'', ''T007'', ''T008'', ''T009'', ''T010'',
          ''T011'', ''T012'', ''T013'', ''T014'', ''T015'', ''T016'', ''T017'', ''T018'']"
    by (simp add: par_defs str_defs rx_defs re_defs)
  then show ?thesis
    using extractParallelTasks_Inr [OF assms]
    by (simp add: taskIdOfNumber_def taskIdOfDigits_def length_padStart3)
qed

lemma mixed_example:
  "extractParallelTasks ''T8-T11, T2 and T10'' = Inr [''T002'', ''T008'', ''T009'', ''T010'', ''T011'']"
  by (simp add: par_defs str_defs rx_defs re_defs)

lemma ids_mixed:
  "rangeIds ''T8-T11, T2 and T10'' = [''T008'', ''T009'', ''T010'', ''T011'']"
  "bareIds ''T8-T11, T2 and T10'' = [''T002'']"
  by (simp_all add: rangeIds_def bareIds_def expand_def taskIdOfNumber_def taskIdOfDigits_def
      fromTo_def upt_conv_Cons par_defs str_defs rx_defs re_defs)

theorem parallel_tasks_expansion_witness:
  "extractParallelTasks ''T8-T11, T2 and T10'' = Inr [''T002'', ''T008'', ''T009'', ''T010'', ''T011''] \<and>
   rangeIds ''T8-T11, T2 and T10'' = [''T008'', ''T009'', ''T010'', ''T011''] \<and>
   bareIds ''T8-T11, T2 and T10'' = [''T002''] \<and>
   [''T002'', ''T008'', ''T009'', ''T010'', ''T011''] =
     sort (remdups (rangeIds ''T8-T11, T2 and T10'' @ bareIds ''T8-T11, T2 and T10''))"
  using parallel_tasks_expansion [OF mixed_example] mixed_example ids_mixed by blast

text \<open>
  The range loop where the numbers of a range are from \<open>2 ^ 53\<close> on: \<open>i++\<close> leaves
  \<open>2 ^ 53\<close> unchanged, so the loop ends in an error and not in a list; and two numbers
  written differently can be the same double.
\<close>

lemma numInc_2_53: "numInc (enat 9007199254740992) = enat 9007199254740992"
  by (simp add: numInc_def roundDouble_def roundTo_def bitLength.simps)

lemma number_of_2_53:
  "number_of ''9007199254740992'' = enat 9007199254740992"
  "number_of ''9007199254740993'' = enat 9007199254740992"
  by (simp_all add: number_of_def parseInt_def decimal_def digitValue_def isDigit_def isSpace_def
      roundDouble_def roundTo_def bitLength.simps)

lemma range_at_2_53:
  "extractParallelTasks ''T9007199254740992-T9007199254740992'' = Inl RangeError"
  "extractParallelTasks ''T9007199254740993-T9007199254740992'' = Inl RangeError"
proof -
  have m: "matchAll TASK_RANGE_REGEX ''T9007199254740992-T9007199254740992'' =
             [(''9007199254740992'', ''9007199254740992'')]"
          "matchAll TASK_RANGE_REGEX ''T9007199254740993-T9007199254740992'' =
             [(''9007199254740993'', ''9007199254740992'')]"
    by (simp_all add: matchAll.simps rx_defs re_defs)
  have "rangeLoop (enat 9007199254740992) (enat 9007199254740992) [] [] = Inl RangeError"
    by (rule rangeLoop_stuck) (simp_all add: numInc_2_53)
  then show
    "extractParallelTasks ''T9007199254740992-T9007199254740992'' = Inl RangeError"
    "extractParallelTasks ''T9007199254740993-T9007199254740992'' = Inl RangeError"
    by (simp_all add: extractParallelTasks_def m number_of_2_53)
qed

text \<open>A range of \<open>2 ^ 32\<close> numbers: no array holds their identifiers.\<close>

lemma length_fromTo: "length (fromTo (enat m) (enat n)) = Suc n - m"
  by (simp add: fromTo_def del: upt_Suc)

lemma rangeLoop_huge:
  "rangeLoop (enat 0) (enat 4294967295) [] [] = Inl RangeError"
proof (cases "rangeLoop (enat 0) (enat 4294967295) [] []")
  case (Inl e)
  then show ?thesis by (simp add: error_eq)
next
  case (Inr p)
  obtain ts' ps' where p: "p = (ts', ps')" by (cases p)
  have d: "isDouble (enat 0)" "isDouble (enat 4294967295)" by (simp_all add: isDouble_def)
  from rangeLoop_Inr [OF Inr [unfolded p] d]
  have "length ts' = length (fromTo (enat 0) (enat 4294967295))" by simp
  also have "\<dots> = Suc 4294967295 - 0" by (rule length_fromTo)
  finally have "length ts' = 4294967296" by simp
  moreover from rangeLoop_length [OF Inr [unfolded p]]
  have "length ts' \<le> 4294967295" by (simp add: MAX_ARRAY_LENGTH_def)
  ultimately show ?thesis by simp
qed

text \<open>
  A range of \<open>2 ^ 24 + 1\<close> numbers: their identifiers differ from one another, and no
  Set holds them.
\<close>

lemma digitValue_digitChar: "d < 10 \<Longrightarrow> digitValue (digitChar d) = d"
proof -
  assume "d < 10"
  then have "d = 0 \<or> d = 1 \<or> d = 2 \<or> d = 3 \<or> d = 4 \<or> d = 5 \<or> d = 6 \<or> d = 7 \<or> d = 8 \<or> d = 9"
    by presburger
  then show ?thesis
    by (elim disjE) (simp_all add: digitValue_def digitChar_def)
qed

lemma decimal_snoc: "decimal (ds @ [c]) = 10 * decimal ds + digitValue c"
  by (simp add: decimal_def)

lemma decimal_toString: "decimal (toString n) = n"
proof (induction n rule: toString.induct)
  case (1 n)
  show ?case
  proof (cases "n < 10")
    case True
    then show ?thesis
      by (subst toString.simps) (simp add: decimal_def digitValue_digitChar)
  next
    case False
    with 1 have "decimal (toString (n div 10)) = n div 10" by simp
    with False show ?thesis
      by (subst toString.simps) (simp add: decimal_snoc digitValue_digitChar)
  qed
qed

lemma decimal_zeros: "decimal (replicate k CHR ''0'' @ ds) = decimal ds"
proof -
  have "foldl (\<lambda>n c. 10 * n + digitValue c) 0 (replicate k CHR ''0'') = 0"
    by (induction k) (simp_all add: digitValue_def)
  then show ?thesis by (simp add: decimal_def)
qed

lemma decimal_taskIdOfNumber: "decimal (tl (taskIdOfNumber (enat n))) = n"
  by (simp add: taskIdOfNumber_def numToString_def padStart3_def decimal_zeros decimal_toString)

lemma distinct_fromTo_ids: "distinct (map taskIdOfNumber (fromTo (enat m) (enat n)))"
proof -
  have "inj_on (\<lambda>k. taskIdOfNumber (enat k)) A" for A
    by (rule inj_on_inverseI [where g = "\<lambda>t. decimal (tl t)"]) (simp add: decimal_taskIdOfNumber)
  then have "distinct (map (\<lambda>k. taskIdOfNumber (enat k)) [m ..< Suc n])"
    by (simp add: distinct_map del: upt_Suc)
  then show ?thesis
    by (simp add: fromTo_def comp_def del: upt_Suc)
qed

lemma rangeLoop_size:
  "rangeLoop i e ts ps = Inr (ts', ps') \<Longrightarrow> distinct ps \<Longrightarrow> length ps \<le> MAX_SET_SIZE \<Longrightarrow>
   distinct ps' \<and> length ps' \<le> MAX_SET_SIZE"
proof (induction i e ts ps rule: rangeLoop.induct)
  case (1 i e ts ps)
  show ?case
  proof (cases "i \<le> e")
    case False
    with "1.prems" show ?thesis by (simp add: rangeLoop.simps [of i e])
  next
    case True
    define x where "x = CHR ''T'' # padStart3 (numToString i)"
    from "1.prems"(1) True obtain ts1 ps1 where
      a: "push ts x = Inr ts1" "setAdd ps x = Inr ps1"
         "rangeLoop (numInc i) e ts1 ps1 = Inr (ts', ps')"
      unfolding x_def by (rule rangeLoop_unfold)
    have "distinct ps1" "length ps1 \<le> MAX_SET_SIZE"
      using a(2) "1.prems"(2,3) by (auto simp: setAdd_def split: if_splits)
    with True x_def a show ?thesis by (rule "1.IH")
  qed
qed

lemma rangeLoop_many:
  "rangeLoop (enat 0) (enat 16777216) [] [] = Inl RangeError"
proof (cases "rangeLoop (enat 0) (enat 16777216) [] []")
  case (Inl e)
  then show ?thesis by (simp add: error_eq)
next
  case (Inr p)
  obtain ts' ps' where p: "p = (ts', ps')" by (cases p)
  let ?ids = "map taskIdOfNumber (fromTo (enat 0) (enat 16777216))"
  have d: "isDouble (enat 0)" "isDouble (enat 16777216)" by (simp_all add: isDouble_def)
  from rangeLoop_Inr [OF Inr [unfolded p] d] have s: "set ?ids = set ps'" by simp
  from rangeLoop_size [OF Inr [unfolded p]]
  have "distinct ps'" "length ps' \<le> 16777216" by (simp_all add: MAX_SET_SIZE_def)
  then have "card (set ps') \<le> 16777216" by (simp add: distinct_card)
  then have "card (set ?ids) \<le> 16777216" by (simp only: s)
  moreover have "card (set ?ids) = length ?ids"
    using distinct_fromTo_ids by (rule distinct_card)
  moreover have "length ?ids = Suc 16777216 - 0"
    by (simp only: length_map length_fromTo)
  ultimately show ?thesis by simp
qed

lemma range_beyond_set: "extractParallelTasks ''T0-T16777216'' = Inl RangeError"
proof -
  have m: "matchAll TASK_RANGE_REGEX ''T0-T16777216'' = [(''0'', ''16777216'')]"
    by (simp add: matchAll.simps rx_defs re_defs)
  have n: "number_of ''0'' = enat 0" "number_of ''16777216'' = enat 16777216"
    by (simp_all add: str_defs isDigit_def isSpace_def)
  show ?thesis
    by (simp add: extractParallelTasks_def m n rangeLoop_many)
qed

lemma star_total:
  "(\<And>m r. k m r \<noteq> None) \<Longrightarrow> star p k s = k (takeWhile p s) (dropWhile p s)"
proof (induction s arbitrary: k)
  case Nil
  show ?case by simp
next
  case (Cons c cs)
  have "star p (\<lambda>m. k (c # m)) cs = k (c # takeWhile p cs) (dropWhile p cs)"
    using Cons.IH [of "\<lambda>m. k (c # m)"] Cons.prems by simp
  then show ?case
    using Cons.prems [of "c # takeWhile p cs" "dropWhile p cs"] by (auto split: option.splits)
qed

lemma TASK_ID_REGEX_eq:
  "TASK_ID_REGEX s =
     (case s of
        [] \<Rightarrow> None
      | c # cs \<Rightarrow>
          if c = CHR ''T'' \<and> takeWhile isDigit cs \<noteq> []
          then Some (takeWhile isDigit cs, dropWhile isDigit cs) else None)"
proof (cases s)
  case Nil
  then show ?thesis by (simp add: TASK_ID_REGEX_def lit_simps)
next
  case (Cons c cs)
  show ?thesis
  proof (cases cs)
    case Nil
    with Cons show ?thesis by (simp add: TASK_ID_REGEX_def lit_simps plus_def chr_def)
  next
    case (Cons x xs)
    have "star isDigit (\<lambda>m. accept (x # m)) xs = Some (x # takeWhile isDigit xs, dropWhile isDigit xs)"
      by (subst star_total) (simp_all add: accept_def)
    then show ?thesis
      using \<open>s = c # cs\<close> Cons by (simp add: TASK_ID_REGEX_def lit_simps plus_def chr_def)
  qed
qed

lemma matchAll_TASK_ID_token:
  assumes "tok \<noteq> []" "\<forall>c\<in>set tok. isDigit c" "case post of [] \<Rightarrow> True | c # _ \<Rightarrow> \<not> isDigit c"
  shows "tok \<in> set (matchAll TASK_ID_REGEX (pre @ CHR ''T'' # tok @ post))"
proof (induction pre rule: length_induct)
  case (1 pre)
  have notT: "\<not> isDigit CHR ''T''" by (simp add: isDigit_def)
  have tw: "takeWhile isDigit (tok @ post) = tok" "dropWhile isDigit (tok @ post) = post"
    using assms(2,3) by (cases post; simp add: takeWhile_append_if dropWhile_append3)+
  show ?case
  proof (cases pre)
    case Nil
    have "TASK_ID_REGEX (CHR ''T'' # tok @ post) = Some (tok, post)"
      using assms(1) by (simp add: TASK_ID_REGEX_eq tw)
    then show ?thesis
      unfolding Nil by (subst matchAll.simps) simp
  next
    case (Cons c pre')
    let ?s = "pre' @ CHR ''T'' # tok @ post"
    show ?thesis
    proof (cases "TASK_ID_REGEX (c # ?s)")
      case None
      then have "matchAll TASK_ID_REGEX (pre @ CHR ''T'' # tok @ post) = matchAll TASK_ID_REGEX ?s"
        unfolding Cons by (subst matchAll.simps) simp
      then show ?thesis using "1.IH" [rule_format, of pre'] Cons by simp
    next
      case (Some xr)
      then have xr: "xr = (takeWhile isDigit ?s, dropWhile isDigit ?s)"
        by (auto simp: TASK_ID_REGEX_eq split: if_splits)
      have dw: "dropWhile isDigit ?s = dropWhile isDigit pre' @ CHR ''T'' # tok @ post"
        using notT by (induction pre') auto
      have "matchAll TASK_ID_REGEX (pre @ CHR ''T'' # tok @ post) =
              fst xr # matchAll TASK_ID_REGEX (dropWhile isDigit pre' @ CHR ''T'' # tok @ post)"
        unfolding Cons using Some
        by (subst matchAll.simps) (simp add: xr dw length_dropWhile_le le_imp_less_Suc)
      moreover have "tok \<in> set (matchAll TASK_ID_REGEX (dropWhile isDigit pre' @ CHR ''T'' # tok @ post))"
        using "1.IH" [rule_format, of "dropWhile isDigit pre'"] Cons
        by (simp add: length_dropWhile_le le_imp_less_Suc)
      ultimately show ?thesis by simp
    qed
  qed
qed

text \<open>What a match of the range expression says about the text it was found in.\<close>

lemma star_sound:
  "star p k s = Some x \<Longrightarrow> \<exists>m r. s = m @ r \<and> (\<forall>c\<in>set m. p c) \<and> k m r = Some x"
proof (induction s arbitrary: k)
  case Nil
  then show ?case by simp
next
  case (Cons c cs)
  show ?case
  proof (cases "p c \<and> star p (\<lambda>m. k (c # m)) cs \<noteq> None")
    case True
    then obtain y where y: "star p (\<lambda>m. k (c # m)) cs = Some y" by auto
    with Cons.prems True have yx: "y = x" by simp
    from Cons.IH [of "\<lambda>m. k (c # m)", OF y [unfolded yx]] obtain m r where
      "cs = m @ r" "\<forall>c\<in>set m. p c" "k (c # m) r = Some x" by blast
    then show ?thesis
      using True by (intro exI [of _ "c # m"] exI [of _ r]) simp
  next
    case False
    with Cons.prems have "k [] (c # cs) = Some x"
      by (auto split: option.splits if_splits)
    then show ?thesis
      by (intro exI [of _ "[]"] exI [of _ "c # cs"]) simp
  qed
qed

lemma plus_sound:
  assumes "plus p k s = Some x"
  shows "\<exists>m r. s = m @ r \<and> m \<noteq> [] \<and> (\<forall>c\<in>set m. p c) \<and> k m r = Some x"
proof -
  from assms obtain c cs where s: "s = c # cs" and c: "p c"
    and st: "star p (\<lambda>m. k (c # m)) cs = Some x"
    by (auto simp: plus_def chr_def split: list.splits if_splits)
  from star_sound [of p "\<lambda>m. k (c # m)", OF st] obtain m r where
    "cs = m @ r" "\<forall>c\<in>set m. p c" "k (c # m) r = Some x" by blast
  then show ?thesis
    using s c by (intro exI [of _ "c # m"] exI [of _ r]) simp
qed

lemma lit_sound:
  assumes "lit p k s = Some x"
  shows "\<exists>r. s = p @ r \<and> k r = Some x"
proof -
  from assms have t: "take (length p) s = p" and k: "k (drop (length p) s) = Some x"
    by (auto simp: lit_def startsWith_def split: if_splits)
  have "s = take (length p) s @ drop (length p) s" by simp
  then have "s = p @ drop (length p) s" by (simp only: t)
  with k show ?thesis by blast
qed

lemma plus_total:
  assumes "\<And>m r. k m r \<noteq> None"
  shows "plus p k s =
     (case s of [] \<Rightarrow> None | c # cs \<Rightarrow> if p c then k (c # takeWhile p cs) (dropWhile p cs) else None)"
proof (cases s)
  case Nil
  then show ?thesis by (simp add: plus_def chr_def)
next
  case (Cons c cs)
  have "star p (\<lambda>m. k (c # m)) cs = k (c # takeWhile p cs) (dropWhile p cs)"
    by (rule star_total) (rule assms)
  then show ?thesis by (simp add: Cons plus_def chr_def)
qed

lemma dropWhile_head: "case dropWhile P xs of [] \<Rightarrow> True | c # _ \<Rightarrow> \<not> P c"
  by (induction xs) auto

lemma TASK_RANGE_REGEX_sound:
  assumes "TASK_RANGE_REGEX s = Some ((a, b), r)"
  shows "s = CHR ''T'' # a @ ''-T'' @ b @ r \<and> a \<noteq> [] \<and> (\<forall>c\<in>set a. isDigit c) \<and>
         b \<noteq> [] \<and> (\<forall>c\<in>set b. isDigit c) \<and> (case r of [] \<Rightarrow> True | c # _ \<Rightarrow> \<not> isDigit c)"
proof -
  from lit_sound [OF assms [unfolded TASK_RANGE_REGEX_def]] obtain r1 where 1: "s = ''T'' @ r1" and
    p1: "plus isDigit (\<lambda>a. lit ''-T'' (plus isDigit (\<lambda>b. accept (a, b)))) r1 = Some ((a, b), r)"
    by blast
  from plus_sound [OF p1] obtain a' r2 where 2: "r1 = a' @ r2" and a': "a' \<noteq> []" "\<forall>c\<in>set a'. isDigit c"
    and l2: "lit ''-T'' (plus isDigit (\<lambda>b. accept (a', b))) r2 = Some ((a, b), r)"
    by blast
  from lit_sound [OF l2] obtain r3 where 3: "r2 = ''-T'' @ r3"
    and p3: "plus isDigit (\<lambda>b. accept (a', b)) r3 = Some ((a, b), r)"
    by blast
  from p3 obtain c cs where r3: "r3 = c # cs" and c: "isDigit c"
    and eq: "a' = a" "b = c # takeWhile isDigit cs" "r = dropWhile isDigit cs"
    by (subst (asm) plus_total) (auto simp: accept_def split: list.splits if_splits)
  have "\<forall>x\<in>set b. isDigit x" unfolding eq using c by (auto dest: set_takeWhileD)
  moreover have "s = CHR ''T'' # a @ ''-T'' @ b @ r" unfolding 1 2 3 r3 eq by simp
  moreover have "case r of [] \<Rightarrow> True | c # _ \<Rightarrow> \<not> isDigit c" unfolding eq by (rule dropWhile_head)
  ultimately show ?thesis using a' eq by simp
qed

lemma matchAll_mem:
  assumes suffix: "\<And>s x r. m s = Some (x, r) \<Longrightarrow> \<exists>u. s = u @ r"
  shows "x \<in> set (matchAll m s) \<Longrightarrow> \<exists>pre t r. s = pre @ t \<and> m t = Some (x, r)"
proof (induction s rule: length_induct)
  case (1 s)
  note IH = "1.IH" [rule_format]
  show ?case
  proof (cases "m s")
    case None
    with "1.prems" obtain c cs where s: "s = c # cs" and x: "x \<in> set (matchAll m cs)"
      by (subst (asm) matchAll.simps) (auto split: list.splits)
    from IH [of cs] s x obtain pre t r where "cs = pre @ t" "m t = Some (x, r)" by auto
    then show ?thesis unfolding s by (intro exI [of _ "c # pre"] exI [of _ t] exI [of _ r]) simp
  next
    case (Some yr)
    obtain y r where yr: "yr = (y, r)" by (cases yr)
    show ?thesis
    proof (cases "x = y")
      case True
      with Some yr show ?thesis by (intro exI [of _ "[]"] exI [of _ s] exI [of _ r]) simp
    next
      case False
      show ?thesis
      proof (cases "length r < length s")
        case True
        with "1.prems" Some yr False have x: "x \<in> set (matchAll m r)"
          by (subst (asm) matchAll.simps) simp
        from IH [OF True x] obtain pre t r' where r: "r = pre @ t" "m t = Some (x, r')" by auto
        from suffix [OF Some [unfolded yr]] obtain u where "s = u @ r" by blast
        with r show ?thesis by (intro exI [of _ "u @ pre"] exI [of _ t] exI [of _ r']) simp
      next
        case ge: False
        with "1.prems" Some yr False obtain c cs where s: "s = c # cs" and x: "x \<in> set (matchAll m cs)"
          by (subst (asm) matchAll.simps) (auto split: list.splits)
        from IH [of cs] s x obtain pre t r' where "cs = pre @ t" "m t = Some (x, r')" by auto
        then show ?thesis unfolding s by (intro exI [of _ "c # pre"] exI [of _ t] exI [of _ r']) simp
      qed
    qed
  qed
qed

lemma range_match_in_text:
  assumes "(a, b) \<in> set (matchAll TASK_RANGE_REGEX d)"
  obtains pre post where "d = pre @ CHR ''T'' # a @ ''-T'' @ b @ post"
    "a \<noteq> []" "\<forall>c\<in>set a. isDigit c" "b \<noteq> []" "\<forall>c\<in>set b. isDigit c"
    "case post of [] \<Rightarrow> True | c # _ \<Rightarrow> \<not> isDigit c"
proof -
  have "\<exists>u. s = u @ r" if "TASK_RANGE_REGEX s = Some (x, r)" for s x r
  proof -
    obtain a' b' where x: "x = (a', b')" by (cases x)
    from TASK_RANGE_REGEX_sound [OF that [unfolded x]]
    have "s = (CHR ''T'' # a' @ ''-T'' @ b') @ r" by simp
    then show ?thesis by blast
  qed
  then have "\<exists>pre t r. d = pre @ t \<and> TASK_RANGE_REGEX t = Some ((a, b), r)"
    using assms by (rule matchAll_mem)
  then obtain pre where "\<exists>t r. d = pre @ t \<and> TASK_RANGE_REGEX t = Some ((a, b), r)" ..
  then obtain t where "\<exists>r. d = pre @ t \<and> TASK_RANGE_REGEX t = Some ((a, b), r)" ..
  then obtain r where dt: "d = pre @ t \<and> TASK_RANGE_REGEX t = Some ((a, b), r)" ..
  note d = dt [THEN conjunct1] and t = dt [THEN conjunct2]
  from TASK_RANGE_REGEX_sound [OF t] have
    "t = CHR ''T'' # a @ ''-T'' @ b @ r" "a \<noteq> []" "\<forall>c\<in>set a. isDigit c"
    "b \<noteq> []" "\<forall>c\<in>set b. isDigit c" "case r of [] \<Rightarrow> True | c # _ \<Rightarrow> \<not> isDigit c"
    by blast+
  then show ?thesis
    using d by (intro that [of pre r]) simp_all
qed

lemma expand_removeAll:
  assumes "fromTo (number_of a) (number_of b) = []"
  shows "expand (removeAll (a, b) ms) = expand ms"
proof (induction ms)
  case Nil
  show ?case by simp
next
  case (Cons m ms)
  obtain a' b' where m: "m = (a', b')" by (cases m)
  show ?case
  proof (cases "m = (a, b)")
    case True
    then show ?thesis using Cons assms by (simp add: expand_Cons)
  next
    case False
    then show ?thesis using Cons unfolding m by (auto simp: expand_Cons)
  qed
qed

text \<open>
  Claim C10, as stated, fails: a description can hold a reversed range expression and
  have no result at all. Here the first expression is reversed, and the second range is
  of \<open>2 ^ 32\<close> numbers.
\<close>

theorem reversed_range_no_result:
  "matchAll TASK_RANGE_REGEX ''T5-T3 T0-T4294967295'' = [(''5'', ''3''), (''0'', ''4294967295'')] \<and>
   number_of ''3'' < number_of ''5'' \<and>
   extractParallelTasks ''T5-T3 T0-T4294967295'' = Inl RangeError"
proof -
  have m: "matchAll TASK_RANGE_REGEX ''T5-T3 T0-T4294967295'' = [(''5'', ''3''), (''0'', ''4294967295'')]"
    by (simp add: matchAll.simps rx_defs re_defs)
  have n: "number_of ''5'' = enat 5" "number_of ''3'' = enat 3"
    "number_of ''0'' = enat 0" "number_of ''4294967295'' = enat 4294967295"
    by (simp_all add: str_defs isDigit_def isSpace_def)
  have "rangeLoop (enat 5) (enat 3) [] [] = Inr ([], [])"
    by (simp add: rangeLoop.simps)
  then have "extractParallelTasks ''T5-T3 T0-T4294967295'' = Inl RangeError"
    by (simp add: extractParallelTasks_def m n rangeLoop_huge)
  with m n show ?thesis by simp
qed

text \<open>
  Claim C10, amended. Where \<open>extractParallelTasks\<close> returns a list for a description with a
  range expression whose start, as \<open>parseInt\<close> reads it, is greater than its end, the
  expression adds no identifier: the list is what the other range expressions and the
  single tokens give. It still holds the identifiers of the two end points, each built
  from its own digits padded to three.
\<close>

theorem reversed_range:
  assumes "(a, b) \<in> set (matchAll TASK_RANGE_REGEX d)"
    and "number_of b < number_of a"
    and "extractParallelTasks d = Inr r"
  shows "rangeIds d = expand (removeAll (a, b) (matchAll TASK_RANGE_REGEX d)) \<and>
         r = sort (remdups (expand (removeAll (a, b) (matchAll TASK_RANGE_REGEX d)) @
                            map taskIdOfDigits (matchAll TASK_ID_REGEX d))) \<and>
         taskIdOfDigits a \<in> set r \<and> taskIdOfDigits b \<in> set r"
proof -
  from assms(1) obtain pre post where d: "d = pre @ CHR ''T'' # a @ ''-T'' @ b @ post"
    and ab: "a \<noteq> []" "\<forall>c\<in>set a. isDigit c" "b \<noteq> []" "\<forall>c\<in>set b. isDigit c"
      "case post of [] \<Rightarrow> True | c # _ \<Rightarrow> \<not> isDigit c"
    by (rule range_match_in_text)
  have "fromTo (number_of a) (number_of b) = []"
    using assms(2) by (intro fromTo_Nil) simp
  then have ex: "rangeIds d = expand (removeAll (a, b) (matchAll TASK_RANGE_REGEX d))"
    by (simp add: rangeIds_def expand_removeAll)
  have "a \<in> set (matchAll TASK_ID_REGEX (pre @ CHR ''T'' # a @ (''-T'' @ b @ post)))"
    using ab(1,2) by (intro matchAll_TASK_ID_token) (simp_all add: isDigit_def)
  then have a: "a \<in> set (matchAll TASK_ID_REGEX d)"
    by (simp add: d)
  have "b \<in> set (matchAll TASK_ID_REGEX ((pre @ CHR ''T'' # a @ ''-'') @ CHR ''T'' # b @ post))"
    using ab(3,4,5) by (intro matchAll_TASK_ID_token)
  then have b: "b \<in> set (matchAll TASK_ID_REGEX d)"
    by (simp add: d)
  have r: "r = sort (remdups (rangeIds d @ bareIds d))"
    using assms(3) by (rule extractParallelTasks_Inr)
  have "set (rangeIds d @ bareIds d) =
        set (rangeIds d @ map taskIdOfDigits (matchAll TASK_ID_REGEX d))"
    by (auto simp: bareIds_def)
  then have r': "r = sort (remdups (rangeIds d @ map taskIdOfDigits (matchAll TASK_ID_REGEX d)))"
    unfolding r by (rule sort_remdups_cong)
  have "taskIdOfDigits a \<in> set r" "taskIdOfDigits b \<in> set r"
    using a b unfolding r' by simp_all
  with ex r' show ?thesis by simp
qed

lemma reversed_example:
  "extractParallelTasks ''T5-T3 and T1-T2'' = Inr [''T001'', ''T002'', ''T003'', ''T005'']"
  "matchAll TASK_RANGE_REGEX ''T5-T3 and T1-T2'' = [(''5'', ''3''), (''1'', ''2'')]"
  "number_of ''3'' < number_of ''5''"
  by (simp_all add: par_defs str_defs rx_defs re_defs)

theorem reversed_range_witness:
  "(''5'', ''3'') \<in> set (matchAll TASK_RANGE_REGEX ''T5-T3 and T1-T2'') \<and>
   number_of ''3'' < number_of ''5'' \<and>
   extractParallelTasks ''T5-T3 and T1-T2'' = Inr [''T001'', ''T002'', ''T003'', ''T005''] \<and>
   rangeIds ''T5-T3 and T1-T2'' = expand [(''1'', ''2'')] \<and>
   ''T005'' \<in> set [''T001'', ''T002'', ''T003'', ''T005''] \<and>
   ''T003'' \<in> set [''T001'', ''T002'', ''T003'', ''T005'']"
proof -
  have m: "(''5'', ''3'') \<in> set (matchAll TASK_RANGE_REGEX ''T5-T3 and T1-T2'')"
    by (simp add: reversed_example(2))
  have i: "taskIdOfDigits ''5'' = ''T005''" "taskIdOfDigits ''3'' = ''T003''"
    by (simp_all add: taskIdOfDigits_def padStart3_simps)
  have e: "removeAll (''5'', ''3'') [(''5'', ''3''), (''1'', ''2'')] = [(''1'', ''2'')]"
    by simp
  from reversed_range [OF m reversed_example(3) reversed_example(1)]
  have "rangeIds ''T5-T3 and T1-T2'' = expand [(''1'', ''2'')] \<and>
        ''T005'' \<in> set [''T001'', ''T002'', ''T003'', ''T005''] \<and>
        ''T003'' \<in> set [''T001'', ''T002'', ''T003'', ''T005'']"
    unfolding reversed_example(2) e i by blast
  with m reversed_example(1,3) show ?thesis by blast
qed

lemma huge_range: "extractParallelTasks ''T0-T4294967295'' = Inl RangeError"
proof -
  have m: "matchAll TASK_RANGE_REGEX ''T0-T4294967295'' = [(''0'', ''4294967295'')]"
    by (simp add: matchAll.simps rx_defs re_defs)
  have n: "number_of ''0'' = enat 0" "number_of ''4294967295'' = enat 4294967295"
    by (simp_all add: str_defs isDigit_def isSpace_def)
  show ?thesis
    by (simp add: extractParallelTasks_def m n rangeLoop_huge)
qed

text \<open>
  Claim C7: a parse should return a complete result for every string. A Parallel
  Opportunities line with the range T0-T4294967295 makes the range loop collect an
  identifier for each of \<open>2 ^ 32\<close> numbers, more than a Set or an array holds, and the
  parse ends in a RangeError instead of a result.
\<close>

theorem parse_huge_range_fails:
  "parseTasksFile doc_huge_range ''specs/001-site'' = Inl RangeError"
  by (simp add: doc_huge_range_def huge_range str_defs dep_defs file_defs rx_defs re_defs)

lemma parse_empty_document:
  "parseTasksFile [] folder =
     Inr \<lparr>specFolder = folder, specName = getSpecName folder, phases = [], totalTasks = 0,
          completedTasks = 0, nextPhase = None, nextTask = None, availablePhases = []\<rparr>"
  by (simp add: parseTasksFile_def parseDependencies_def split_def findIndex_def
      DEPENDENCIES_SECTION_START_def startsWith_simps PHASE_HEADER_REGEX_def TASK_LINE_REGEX_def
      lit_simps attachDependencies_def calculateAvailablePhases_def
      calculateAvailablePhases_loop_def)

end
